theory Spec2Isabelle
  imports Complex_Main
begin

section \<open>Coordinates\<close>

text \<open>
  A \<open>Coordinates\<close> object holds two integer fields \<open>x\<close> and \<open>y\<close>; \<open>equals\<close> compares both
  fields, which is equality of pairs.
\<close>

type_synonym coordinates = "int \<times> int"

text \<open>
  Keys of the JavaScript \<open>Map\<close>s. \<open>String(xy)\<close> is the text \<open>x,y\<close>; distinct integer pairs
  print to distinct texts and \<open>createCoordinatesFromString\<close> parses the text back, so the
  string is represented by the pair it prints (\<open>Str\<close>). A \<open>Map\<close> can also be asked for a
  key that is not a string but the \<open>Coordinates\<close> object itself (\<open>Obj\<close>); such a key is
  never equal to a string key.
\<close>

datatype key = Str coordinates | Obj coordinates

definition toString :: "coordinates \<Rightarrow> key" where
  "toString xy = Str xy"

definition getNeighbours :: "coordinates \<Rightarrow> bool \<Rightarrow> coordinates list" where
  "getNeighbours c getDiagonals =
     (case c of (x, y) \<Rightarrow>
        [(x, y - 1), (x - 1, y), (x + 1, y), (x, y + 1)] @
        (if getDiagonals
         then [(x - 1, y - 1), (x + 1, y - 1), (x - 1, y + 1), (x + 1, y + 1)]
         else []))"

definition difference :: "coordinates \<Rightarrow> coordinates \<Rightarrow> coordinates" where
  "difference this other = (\<bar>fst this - fst other\<bar>, \<bar>snd this - snd other\<bar>)"

definition magnitude :: "coordinates \<Rightarrow> real" where
  "magnitude c = sqrt (real_of_int (fst c * fst c + snd c * snd c))"

definition withinProximity :: "coordinates \<Rightarrow> real \<Rightarrow> coordinates \<Rightarrow> bool" where
  "withinProximity this radius xy = (magnitude (difference this xy) \<le> radius)"

datatype direction = Left | Right | Up | Down | OtherDirection

datatype error = InvalidDirection | OverlapError

fun move :: "coordinates \<Rightarrow> direction \<Rightarrow> error + coordinates" where
  "move (x, y) Left = Inr (x - 1, y)"
| "move (x, y) Right = Inr (x + 1, y)"
| "move (x, y) Up = Inr (x, y - 1)"
| "move (x, y) Down = Inr (x, y + 1)"
| "move (x, y) OtherDirection = Inl InvalidDirection"

section \<open>Area: the entity store\<close>

text \<open>
  Entity types are the strings \<open>"empty"\<close>, \<open>"wall"\<close>, \<open>"agent"\<close>, \<open>"destination"\<close>,
  \<open>"enemy"\<close> and \<open>"navigated"\<close>. A value read from or written to the \<open>entities\<close> map
  may also be \<open>undefined\<close>, which is \<open>None\<close> of \<open>entityType option\<close>. The map itself
  is a partial function from keys: \<open>has\<close> asks for the key, \<open>get\<close> yields \<open>undefined\<close>
  for an absent key. Painting on the canvas grid is not part of the model.
\<close>

datatype entityType = Empty | Wall | Agent | Destination | Enemy | Navigated

record area =
  width :: int
  height :: int
  allowDiagonalsInPaths :: bool
  entities :: "key \<rightharpoonup> entityType option"

definition has :: "('k \<rightharpoonup> 'v) \<Rightarrow> 'k \<Rightarrow> bool" where
  "has m k = (m k \<noteq> None)"

definition get :: "('k \<rightharpoonup> 'v option) \<Rightarrow> 'k \<Rightarrow> 'v option" where
  "get m k = (case m k of None \<Rightarrow> None | Some v \<Rightarrow> v)"

definition newArea :: "int \<Rightarrow> int \<Rightarrow> bool \<Rightarrow> area" where
  "newArea w h d =
     \<lparr>width = w, height = h, allowDiagonalsInPaths = d, entities = Map.empty\<rparr>"

text \<open>
  A method that can throw returns the exception, if any, together with the area as it is
  at that moment.
\<close>

definition addEntity :: "area \<Rightarrow> coordinates \<Rightarrow> entityType option \<Rightarrow> error option \<times> area" where
  "addEntity a xy entityType =
     (let k = toString xy in
      if has (entities a) k then (Some OverlapError, a)
      else if entityType \<noteq> Some Empty
      then (None, a\<lparr>entities := (entities a)(k \<mapsto> entityType)\<rparr>)
      else (None, a))"

definition deleteEntity :: "area \<Rightarrow> coordinates \<Rightarrow> area" where
  "deleteEntity a xy = a\<lparr>entities := (entities a)(toString xy := None)\<rparr>"

definition areCoordinatesValid :: "area \<Rightarrow> coordinates \<Rightarrow> bool" where
  "areCoordinatesValid a xy =
     (0 \<le> fst xy \<and> fst xy < width a \<and> 0 \<le> snd xy \<and> snd xy < height a)"

definition isValidAgentPosition :: "area \<Rightarrow> coordinates \<Rightarrow> bool" where
  "isValidAgentPosition a xy =
     (areCoordinatesValid a xy \<and> get (entities a) (toString xy) \<noteq> Some Wall)"

definition moveEntity :: "area \<Rightarrow> coordinates \<Rightarrow> direction \<Rightarrow> error option \<times> area \<times> coordinates" where
  "moveEntity a xy dir =
     (case move xy dir of
        Inl e \<Rightarrow> (Some e, a, xy)
      | Inr newCoordinates \<Rightarrow>
          if isValidAgentPosition a newCoordinates then
            (let oldKey = toString xy;
                 k = toString newCoordinates;
                 es = (entities a)(k \<mapsto> get (entities a) oldKey);
                 es' = es(oldKey := None)
             in (None, a\<lparr>entities := es'\<rparr>, newCoordinates))
          else (None, a, xy))"

section \<open>Numbers and sorting\<close>

text \<open>
  The distances of \<open>findDijkstraPath\<close> are JavaScript numbers: finite values or
  \<open>Infinity\<close>. Finite values are read as real numbers, and \<open>+\<close> and \<open>Math.sqrt\<close> as the
  exact operations on them; with the default heuristic every finite distance is a small
  integer, on which the two readings agree. A map lookup may be \<open>undefined\<close>; \<open><\<close> with
  an \<open>undefined\<close> operand is false.
\<close>

datatype number = Num real | Infinity

fun numLess :: "number \<Rightarrow> number \<Rightarrow> bool" where
  "numLess (Num p) (Num q) = (p < q)"
| "numLess (Num p) Infinity = True"
| "numLess Infinity q = False"

fun numAdd :: "number \<Rightarrow> real \<Rightarrow> number" where
  "numAdd (Num p) q = Num (p + q)"
| "numAdd Infinity q = Infinity"

definition jsLess :: "number option \<Rightarrow> number option \<Rightarrow> bool" where
  "jsLess p q =
     (case p of None \<Rightarrow> False
      | Some v \<Rightarrow> (case q of None \<Rightarrow> False | Some w \<Rightarrow> numLess v w))"

text \<open>
  \<open>Array.prototype.sort\<close> with a comparator that answers \<open>-1\<close> exactly when its first
  argument is smaller. The sort is stable, so on a consistent comparator its result is
  the one of stable insertion sort.
\<close>

fun insertBy :: "('a \<Rightarrow> 'a \<Rightarrow> bool) \<Rightarrow> 'a \<Rightarrow> 'a list \<Rightarrow> 'a list" where
  "insertBy lt v [] = [v]"
| "insertBy lt v (w # ws) = (if lt w v then w # insertBy lt v ws else v # w # ws)"

definition stableSort :: "('a \<Rightarrow> 'a \<Rightarrow> bool) \<Rightarrow> 'a list \<Rightarrow> 'a list" where
  "stableSort lt vs = foldr (insertBy lt) vs []"

section \<open>Depth-first search\<close>

text \<open>
  \<open>findDepthFirstPath\<close> is recursive and shares the set \<open>visitedNodes\<close> and the array
  \<open>navigated\<close> between all its calls, so both are passed in and handed back. The first
  argument is the call-stack depth still available: every nested call uses one unit, and
  \<open>None\<close> is a search that needs a deeper stack. \<open>tryNeighbours\<close> is the \<open>for\<close> loop over
  \<open>unvisitedNeighbours\<close>, a list that is computed once, before the first recursive call.
\<close>

type_synonym dfsResult = "coordinates list \<times> coordinates set \<times> coordinates list"

function findDepthFirstPath ::
  "nat \<Rightarrow> area \<Rightarrow> coordinates \<Rightarrow> coordinates \<Rightarrow> coordinates set \<Rightarrow>
   (coordinates list \<Rightarrow> coordinates list) \<Rightarrow> coordinates list \<Rightarrow> dfsResult option"
and tryNeighbours ::
  "nat \<Rightarrow> area \<Rightarrow> coordinates list \<Rightarrow> coordinates \<Rightarrow> coordinates set \<Rightarrow>
   (coordinates list \<Rightarrow> coordinates list) \<Rightarrow> coordinates list \<Rightarrow> dfsResult option"
where
  "findDepthFirstPath 0 a source destination visitedNodes sortNeighbours navigated = None"
| "findDepthFirstPath (Suc n) a source destination visitedNodes sortNeighbours navigated =
     (let navigated1 = navigated @ [source] in
      if source = destination then
        (let navigated2 = butlast (tl navigated1) in
         Some (navigated2, visitedNodes, navigated2))
      else
        (let visitedNodes1 = insert source visitedNodes;
             neighbours = getNeighbours source (allowDiagonalsInPaths a);
             unvisitedNeighbours = sortNeighbours
               (filter (\<lambda>neighbour. isValidAgentPosition a neighbour \<and>
                                     neighbour \<notin> visitedNodes1) neighbours)
         in if unvisitedNeighbours = [] then Some ([], visitedNodes1, navigated1)
            else tryNeighbours n a unvisitedNeighbours destination visitedNodes1
                   sortNeighbours navigated1))"
| "tryNeighbours n a [] destination visitedNodes sortNeighbours navigated =
     Some ([], visitedNodes, navigated)"
| "tryNeighbours n a (neighbour # rest) destination visitedNodes sortNeighbours navigated =
     (case findDepthFirstPath n a neighbour destination visitedNodes sortNeighbours navigated of
        None \<Rightarrow> None
      | Some (path, visitedNodes1, navigated1) \<Rightarrow>
          if path \<noteq> [] then Some (path, visitedNodes1, navigated1)
          else tryNeighbours n a rest destination visitedNodes1 sortNeighbours navigated1)"
  by pat_completeness auto
termination
  by (relation "measures [\<lambda>v. case v of Inl (n, _) \<Rightarrow> n | Inr (n, _) \<Rightarrow> n,
                          \<lambda>v. case v of Inl _ \<Rightarrow> 0 | Inr (_, _, ns, _) \<Rightarrow> Suc (length ns)]") auto

definition sortByDistanceTo :: "coordinates \<Rightarrow> coordinates list \<Rightarrow> coordinates list" where
  "sortByDistanceTo destination neighbours =
     stableSort (\<lambda>p q. magnitude (difference destination p) < magnitude (difference destination q))
       neighbours"

definition findDepthFirstPathDirectionally ::
  "nat \<Rightarrow> area \<Rightarrow> coordinates \<Rightarrow> coordinates \<Rightarrow> coordinates set \<Rightarrow> dfsResult option" where
  "findDepthFirstPathDirectionally n a source destination visitedNodes =
     findDepthFirstPath n a source destination visitedNodes (sortByDistanceTo destination) []"

section \<open>Dijkstra's algorithm and A*\<close>

text \<open>
  The three maps of \<open>findDijkstraPath\<close> are keyed by \<open>String(xy)\<close> and by nothing else,
  so the model keys them by the coordinates. \<open>unvisitedNodes\<close> is a \<open>Map\<close> used as a set
  whose keys are listed in insertion order; it is the list of its keys.
\<close>

record dijkstra =
  unvisitedNodes :: "coordinates list"
  distances :: "coordinates \<rightharpoonup> number"
  previousDistances :: "coordinates \<rightharpoonup> coordinates"

definition compareDistances :: "(coordinates \<rightharpoonup> number) \<Rightarrow> coordinates \<Rightarrow> coordinates \<Rightarrow> bool" where
  "compareDistances ds p q = jsLess (ds p) (ds q)"

definition updateDistance ::
  "(coordinates \<Rightarrow> real) \<Rightarrow> coordinates \<Rightarrow> dijkstra \<Rightarrow> coordinates \<Rightarrow> dijkstra" where
  "updateDistance getHeuristic current st neighbour =
     (case distances st current of
        None \<Rightarrow> st
      | Some dc \<Rightarrow>
          (let distance = numAdd (numAdd dc 1) (getHeuristic neighbour) in
           if jsLess (Some distance) (distances st neighbour)
           then st\<lparr>distances := (distances st)(neighbour \<mapsto> distance),
                   previousDistances := (previousDistances st)(neighbour \<mapsto> current)\<rparr>
           else st))"

definition cells :: "area \<Rightarrow> coordinates list" where
  "cells a = concat (map (\<lambda>y. map (\<lambda>x. (x, y)) [0..width a - 1]) [0..height a - 1])"

definition addCell :: "area \<Rightarrow> coordinates \<Rightarrow> dijkstra \<Rightarrow> coordinates \<Rightarrow> dijkstra" where
  "addCell a source st xy =
     (if isValidAgentPosition a xy \<and> source \<noteq> xy
      then st\<lparr>unvisitedNodes := unvisitedNodes st @ [xy],
              distances := (distances st)(xy \<mapsto> Infinity)\<rparr>
      else st)"

definition initialDijkstra :: "area \<Rightarrow> coordinates \<Rightarrow> dijkstra" where
  "initialDijkstra a source =
     foldl (addCell a source)
       \<lparr>unvisitedNodes = [source], distances = [source \<mapsto> Num 0],
        previousDistances = Map.empty\<rparr>
       (cells a)"

text \<open>
  The inner \<open>while\<close> loop that collects the path follows \<open>previousDistances\<close> for as long
  as the key is present; \<open>None\<close> is a walk that never ends.
\<close>

partial_function (option) collectPath ::
  "(coordinates \<rightharpoonup> coordinates) \<Rightarrow> coordinates option \<Rightarrow> coordinates list \<Rightarrow>
   coordinates list option" where
  "collectPath prevs previous navigated =
     (case previous of
        None \<Rightarrow> Some navigated
      | Some p \<Rightarrow>
          if has prevs p then collectPath prevs (prevs p) (navigated @ [p])
          else Some navigated)"

declare collectPath.simps [code]

definition nextNode :: "dijkstra \<Rightarrow> coordinates" where
  "nextNode st = hd (stableSort (compareDistances (distances st)) (unvisitedNodes st))"

definition visit :: "area \<Rightarrow> (coordinates \<Rightarrow> real) \<Rightarrow> dijkstra \<Rightarrow> dijkstra" where
  "visit a getHeuristic st =
     (let current = nextNode st in
      foldl (updateDistance getHeuristic current)
        (st\<lparr>unvisitedNodes := removeAll current (unvisitedNodes st)\<rparr>)
        (getNeighbours current (allowDiagonalsInPaths a)))"

text \<open>
  The outer \<open>while\<close> loop. Each round takes the first node of the sorted keys out of
  \<open>unvisitedNodes\<close>; at the destination it collects the path, otherwise it updates the
  distance of every neighbour.
\<close>

function dijkstraLoop ::
  "area \<Rightarrow> coordinates \<Rightarrow> (coordinates \<Rightarrow> real) \<Rightarrow> dijkstra \<Rightarrow> coordinates list option" where
  "dijkstraLoop a destination getHeuristic st =
     (if unvisitedNodes st = [] then Some []
      else if nextNode st = destination
      then collectPath (previousDistances st) (previousDistances st (nextNode st)) []
      else dijkstraLoop a destination getHeuristic (visit a getHeuristic st))"
  by pat_completeness auto

definition findDijkstraPath ::
  "area \<Rightarrow> coordinates \<Rightarrow> coordinates \<Rightarrow> (coordinates \<Rightarrow> real) \<Rightarrow> coordinates list option" where
  "findDijkstraPath a source destination getHeuristic =
     dijkstraLoop a destination getHeuristic (initialDijkstra a source)"

text \<open>The source's \<open>constant\<close>; \<open>constantly 0\<close> is the default heuristic.\<close>

definition constantly :: "'a \<Rightarrow> 'b \<Rightarrow> 'a" where
  "constantly v = (\<lambda>_. v)"

definition findAStarPath :: "area \<Rightarrow> coordinates \<Rightarrow> coordinates \<Rightarrow> coordinates list option" where
  "findAStarPath a source destination =
     findDijkstraPath a source destination
       (\<lambda>neighbour. magnitude (difference neighbour destination))"

section \<open>Sequences of store operations\<close>

text \<open>
  A run of the three mutating methods. An operation that throws leaves the area as it was
  when the exception was raised, and the run goes on from there.
\<close>

datatype operation =
  AddEntity coordinates "entityType option"
| DeleteEntity coordinates
| MoveEntity coordinates direction

fun perform :: "area \<Rightarrow> operation \<Rightarrow> area" where
  "perform a (AddEntity xy entityType) = snd (addEntity a xy entityType)"
| "perform a (DeleteEntity xy) = deleteEntity a xy"
| "perform a (MoveEntity xy dir) = fst (snd (moveEntity a xy dir))"

definition performAll :: "area \<Rightarrow> operation list \<Rightarrow> area" where
  "performAll a ops = foldl perform a ops"

text \<open>
  The store's invariant: every key is the string of a coordinate inside the grid, and its
  value is an entity type other than \<open>"empty"\<close>.
\<close>

definition entitiesWellFormed :: "area \<Rightarrow> bool" where
  "entitiesWellFormed a =
     (\<forall>k v. entities a k = Some v \<longrightarrow>
        (case k of Str xy \<Rightarrow> areCoordinatesValid a xy | Obj xy \<Rightarrow> False) \<and>
        (\<exists>t. v = Some t \<and> t \<noteq> Empty))"

text \<open>
  Calls that respect the grid: \<open>addEntity\<close> with coordinates inside the grid and a defined
  entity type, \<open>moveEntity\<close> on a cell that holds an entry.
\<close>

fun admissible :: "area \<Rightarrow> operation \<Rightarrow> bool" where
  "admissible a (AddEntity xy entityType) = (areCoordinatesValid a xy \<and> entityType \<noteq> None)"
| "admissible a (DeleteEntity xy) = True"
| "admissible a (MoveEntity xy dir) = has (entities a) (toString xy)"

fun allAdmissible :: "area \<Rightarrow> operation list \<Rightarrow> bool" where
  "allAdmissible a [] = True"
| "allAdmissible a (operation # ops) =
     (admissible a operation \<and> allAdmissible (perform a operation) ops)"

section \<open>Pursuit\<close>

text \<open>
  The body of the \<open>enemyPositions.forEach\<close> callback in the handler of a directional key,
  for the enemy at \<open>index\<close>. The callback is given the indices of the array only; for
  any other index the model does nothing. The closure variables it reads and writes are
  the fields of \<open>game\<close>. \<open>onDeath\<close> hands over
  to the level reset; the model stops there with \<open>Death\<close>. An exception ends the handler;
  it is returned with the game as it is at that moment. The lookup of the entity at the
  candidate cell passes the \<open>Coordinates\<close> object itself as the key.
\<close>

record game =
  gameArea :: area
  agentPosition :: coordinates
  enemyPositions :: "coordinates list"
  inPursuit :: bool

datatype signal = Death | Thrown error

definition enemyDetectionProximity :: real where
  "enemyDetectionProximity = 6"

definition pursue :: "game \<Rightarrow> nat \<Rightarrow> (signal option \<times> game) option" where
  "pursue g index =
     (let position = enemyPositions g ! index in
      if length (enemyPositions g) \<le> index then Some (None, g)
      else if position = agentPosition g then Some (Some Death, g)
      else if withinProximity (agentPosition g) enemyDetectionProximity position then
        (case findDijkstraPath (gameArea g) (agentPosition g) position (constantly 0) of
           None \<Rightarrow> None
         | Some [] \<Rightarrow> Some (None, g)
         | Some (newPosition # _) \<Rightarrow>
             (let entity = get (entities (gameArea g)) (Obj newPosition) in
              if entity \<noteq> Some Enemy \<and> entity \<noteq> Some Destination then
                (let g1 = g\<lparr>enemyPositions := (enemyPositions g)[index := newPosition]\<rparr>;
                     a1 = deleteEntity (gameArea g1) position;
                     (thrown, a2) = addEntity a1 newPosition (Some Enemy)
                 in case thrown of
                      Some e \<Rightarrow> Some (Some (Thrown e), g1\<lparr>gameArea := a2\<rparr>)
                    | None \<Rightarrow> Some (None, g1\<lparr>gameArea := a2, inPursuit := True\<rparr>))
              else Some (None, g)))
      else Some (None, g))"

text \<open>
  A 4 by 1 corridor: the agent at its left end, an enemy at its right end, and the
  destination marker on the cell next to the enemy.
\<close>

definition corridor :: area where
  "corridor = (newArea 4 1 False)\<lparr>entities :=
     [Str (0, 0) \<mapsto> Some Agent, Str (2, 0) \<mapsto> Some Destination, Str (3, 0) \<mapsto> Some Enemy]\<rparr>"

definition corridorGame :: game where
  "corridorGame =
     \<lparr>gameArea = corridor, agentPosition = (0, 0), enemyPositions = [(3, 0)],
      inPursuit = False\<rparr>"

section \<open>Notions used by the statements and their proofs\<close>

text \<open>
  The valid agent positions that a depth-first search has not marked as visited.
\<close>

definition pending :: "area \<Rightarrow> coordinates set \<Rightarrow> coordinates set" where
  "pending a V = {xy. isValidAgentPosition a xy \<and> xy \<notin> V}"

text \<open>
  Two areas with the same dimensions, the same diagonal flag and the same wall cells.
\<close>

definition sameTerrain :: "area \<Rightarrow> area \<Rightarrow> bool" where
  "sameTerrain a b =
     (width a = width b \<and> height a = height b \<and>
      allowDiagonalsInPaths a = allowDiagonalsInPaths b \<and>
      (\<forall>xy. (get (entities a) (toString xy) = Some Wall) =
            (get (entities b) (toString xy) = Some Wall)))"

text \<open>
  A 4 by 3 area with walls at (2,0) and (0,2): from (1,1) the cells above and to the left
  lead into a pocket, the way to (3,1) goes right.
\<close>

definition pocket :: area where
  "pocket = (newArea 4 3 False)\<lparr>entities :=
     [Str (2, 0) \<mapsto> Some Wall, Str (0, 2) \<mapsto> Some Wall]\<rparr>"

text \<open>
  A 4 by 4 area with walls at (0,1), (1,1) and (2,2): from (1,3) the cells above and to
  the left, the nearer ones to (1,0), lead into a pocket, the way to (1,0) goes right and
  around.
\<close>

definition detour :: area where
  "detour = (newArea 4 4 False)\<lparr>entities :=
     [Str (0, 1) \<mapsto> Some Wall, Str (1, 1) \<mapsto> Some Wall, Str (2, 2) \<mapsto> Some Wall]\<rparr>"

text \<open>
  What holds of the maps of \<open>findDijkstraPath\<close> at the head of every round of the outer
  loop: the keys of \<open>distances\<close> are the source and the valid agent positions, the source
  is at distance 0, no distance is negative, every predecessor entry leads from a cell to
  one of which it is a neighbour and whose distance is smaller by at least 1, every cell
  with a finite distance other than the source has a predecessor, and every unvisited
  node has a distance.
\<close>

definition dijkstraInvariant :: "area \<Rightarrow> coordinates \<Rightarrow> dijkstra \<Rightarrow> bool" where
  "dijkstraInvariant a s st =
     ((\<forall>v. (distances st v \<noteq> None) = (v = s \<or> isValidAgentPosition a v)) \<and>
      distances st s = Some (Num 0) \<and>
      (\<forall>v x. distances st v = Some (Num x) \<longrightarrow> 0 \<le> x) \<and>
      (\<forall>v p. previousDistances st v = Some p \<longrightarrow>
         v \<noteq> s \<and> v \<in> set (getNeighbours p (allowDiagonalsInPaths a)) \<and>
         (\<exists>x y. distances st p = Some (Num x) \<and> distances st v = Some (Num y) \<and> x + 1 \<le> y)) \<and>
      (\<forall>v x. distances st v = Some (Num x) \<longrightarrow> v \<noteq> s \<longrightarrow> previousDistances st v \<noteq> None) \<and>
      (\<forall>v\<in>set (unvisitedNodes st). distances st v \<noteq> None))"

text \<open>
  \<open>follows prevs p r s\<close>: the list \<open>r\<close> is \<open>p\<close>, its predecessor, the predecessor of that
  one, and so on, and the predecessor of its last element is \<open>s\<close>. \<open>steps a r\<close>: each
  element of \<open>r\<close> is followed by one of its neighbours.
\<close>

fun follows ::
  "(coordinates \<rightharpoonup> coordinates) \<Rightarrow> coordinates \<Rightarrow> coordinates list \<Rightarrow> coordinates \<Rightarrow> bool" where
  "follows prevs p [] s = (p = s)"
| "follows prevs p (q # r) s = (q = p \<and> (\<exists>p'. prevs p = Some p' \<and> follows prevs p' r s))"

fun steps :: "area \<Rightarrow> coordinates list \<Rightarrow> bool" where
  "steps a (u # v # rest) =
     (v \<in> set (getNeighbours u (allowDiagonalsInPaths a)) \<and> steps a (v # rest))"
| "steps a rest = True"

text \<open>
  The invariant for a destination next to the source: its predecessor, if any, is the
  source, and once the source has been visited its distance is at most 1 plus its
  heuristic.
\<close>

definition nearInvariant ::
  "area \<Rightarrow> coordinates \<Rightarrow> coordinates \<Rightarrow> (coordinates \<Rightarrow> real) \<Rightarrow> bool \<Rightarrow> dijkstra \<Rightarrow> bool" where
  "nearInvariant a s d h bounded st =
     (dijkstraInvariant a s st \<and>
      (previousDistances st d = None \<or> previousDistances st d = Some s) \<and>
      (bounded \<longrightarrow> (\<forall>dd. distances st d = Some dd \<longrightarrow> \<not> numLess (Num (1 + h d)) dd)))"

text \<open>
  A route from \<open>s\<close> to \<open>d\<close>: a non-empty list of valid agent positions that starts at
  \<open>s\<close>, ends at \<open>d\<close>, and goes from each cell to one of its neighbours.
\<close>

definition isRoute :: "area \<Rightarrow> coordinates list \<Rightarrow> coordinates \<Rightarrow> coordinates \<Rightarrow> bool" where
  "isRoute a r s d =
     (r \<noteq> [] \<and> hd r = s \<and> last r = d \<and> (\<forall>xy\<in>set r. isValidAgentPosition a xy) \<and> steps a r)"

text \<open>
  The invariant while a reachable destination is still unvisited: every visited node has
  a finite distance and so has each of its neighbours that has a distance at all.
\<close>

definition routeInvariant :: "area \<Rightarrow> coordinates \<Rightarrow> coordinates \<Rightarrow> dijkstra \<Rightarrow> bool" where
  "routeInvariant a s d st =
     (dijkstraInvariant a s st \<and> d \<in> set (unvisitedNodes st) \<and>
      (\<forall>u. distances st u \<noteq> None \<and> u \<notin> set (unvisitedNodes st) \<longrightarrow>
         (\<exists>x. distances st u = Some (Num x)) \<and>
         (\<forall>v\<in>set (getNeighbours u (allowDiagonalsInPaths a)).
            distances st v \<noteq> Some Infinity)))"

text \<open>
  The cost that \<open>findDijkstraPath\<close> adds up along a list of cells: 1 plus the heuristic
  for each cell entered.
\<close>

fun pathCost :: "(coordinates \<Rightarrow> real) \<Rightarrow> coordinates list \<Rightarrow> real" where
  "pathCost h [] = 0"
| "pathCost h (v # rest) = (1 + h v) + pathCost h rest"

text \<open>
  The invariant behind shortest paths: a predecessor has been visited and the distance of
  its successor is exactly the predecessor's plus 1 plus the heuristic; no visited node is
  farther than an unvisited one; every neighbour of a visited node has been offered the
  distance through it.
\<close>

definition optInvariant ::
  "area \<Rightarrow> coordinates \<Rightarrow> coordinates \<Rightarrow> (coordinates \<Rightarrow> real) \<Rightarrow> dijkstra \<Rightarrow> bool" where
  "optInvariant a s d h st =
     (dijkstraInvariant a s st \<and> d \<in> set (unvisitedNodes st) \<and>
      (\<forall>v p. previousDistances st v = Some p \<longrightarrow>
         p \<notin> set (unvisitedNodes st) \<and>
         (\<exists>x. distances st p = Some (Num x) \<and> distances st v = Some (Num (x + (1 + h v))))) \<and>
      (\<forall>u v. distances st u \<noteq> None \<longrightarrow> u \<notin> set (unvisitedNodes st) \<longrightarrow>
         v \<in> set (unvisitedNodes st) \<longrightarrow> \<not> jsLess (distances st v) (distances st u)) \<and>
      (\<forall>u x v. distances st u = Some (Num x) \<longrightarrow> u \<notin> set (unvisitedNodes st) \<longrightarrow>
         v \<in> set (getNeighbours u (allowDiagonalsInPaths a)) \<longrightarrow>
         \<not> jsLess (Some (Num (x + (1 + h v)))) (distances st v)))"

text \<open>
  Manhattan distance; \<open>closer d q v\<close>: in each coordinate \<open>q\<close> is at most as far from \<open>d\<close>
  as \<open>v\<close> is; \<open>between q d c\<close>: \<open>c\<close> lies in the rectangle spanned by \<open>q\<close> and \<open>d\<close>.
\<close>

definition manhattan :: "coordinates \<Rightarrow> coordinates \<Rightarrow> int" where
  "manhattan p q = \<bar>fst p - fst q\<bar> + \<bar>snd p - snd q\<bar>"

definition closer :: "coordinates \<Rightarrow> coordinates \<Rightarrow> coordinates \<Rightarrow> bool" where
  "closer d q v = (\<bar>fst q - fst d\<bar> \<le> \<bar>fst v - fst d\<bar> \<and> \<bar>snd q - snd d\<bar> \<le> \<bar>snd v - snd d\<bar>)"

definition between :: "coordinates \<Rightarrow> coordinates \<Rightarrow> coordinates \<Rightarrow> bool" where
  "between q d c =
     (min (fst q) (fst d) \<le> fst c \<and> fst c \<le> max (fst q) (fst d) \<and>
      min (snd q) (snd d) \<le> snd c \<and> snd c \<le> max (snd q) (snd d))"

text \<open>An area without a wall on any cell.\<close>

definition obstacleFree :: "area \<Rightarrow> bool" where
  "obstacleFree a = (\<forall>xy. get (entities a) (toString xy) \<noteq> Some Wall)"

section \<open>Basic facts\<close>

lemma numAdd_numAdd: "numAdd (numAdd dc p) q = numAdd dc (p + q)"
  by (cases dc) simp_all

lemma updateDistance_alt:
  "updateDistance getHeuristic current st neighbour =
     (case distances st current of
        None \<Rightarrow> st
      | Some dc \<Rightarrow>
          (let distance = numAdd dc (1 + getHeuristic neighbour) in
           if jsLess (Some distance) (distances st neighbour)
           then st\<lparr>distances := (distances st)(neighbour \<mapsto> distance),
                   previousDistances := (previousDistances st)(neighbour \<mapsto> current)\<rparr>
           else st))"
  by (simp add: updateDistance_def numAdd_numAdd split: option.splits)

lemma set_insertBy: "set (insertBy lt v ws) = insert v (set ws)"
  by (induction ws) auto

lemma set_stableSort: "set (stableSort lt vs) = set vs"
  by (induction vs) (auto simp: stableSort_def set_insertBy)

lemma stableSort_Nil_iff: "stableSort lt vs = [] \<longleftrightarrow> vs = []"
  using set_stableSort [of lt vs] by (metis set_empty)

lemma nextNode_in: "unvisitedNodes st \<noteq> [] \<Longrightarrow> nextNode st \<in> set (unvisitedNodes st)"
  unfolding nextNode_def
  using hd_in_set [of "stableSort (compareDistances (distances st)) (unvisitedNodes st)"]
  by (simp add: stableSort_Nil_iff set_stableSort)

lemma unvisited_updateDistance:
  "unvisitedNodes (updateDistance h c st n) = unvisitedNodes st"
  by (simp add: updateDistance_alt Let_def split: option.splits)

lemma unvisited_foldl_updateDistance:
  "unvisitedNodes (foldl (updateDistance h c) st ns) = unvisitedNodes st"
  by (induction ns arbitrary: st) (simp_all add: unvisited_updateDistance)

lemma unvisited_visit:
  "unvisitedNodes (visit a h st) = removeAll (nextNode st) (unvisitedNodes st)"
  by (simp add: visit_def Let_def unvisited_foldl_updateDistance)

lemma length_removeAll_less: "v \<in> set vs \<Longrightarrow> length (removeAll v vs) < length vs"
  by (induction vs) (auto simp: less_Suc_eq_le length_removeAll_less_eq split: if_splits)

termination dijkstraLoop
  by (relation "measure (\<lambda>(a, d, h, st). length (unvisitedNodes st))")
     (auto simp: unvisited_visit intro!: length_removeAll_less nextNode_in)

declare dijkstraLoop.simps [simp del]

section \<open>The entity store\<close>

lemma move_Inr_iff: "(\<exists>n. move xy dir = Inr n) \<longleftrightarrow> dir \<noteq> OtherDirection"
  by (cases xy; cases dir) auto

lemma move_neq: "move xy dir = Inr n \<Longrightarrow> n \<noteq> xy"
  by (cases xy; cases dir) auto

lemma dims_perform [simp]:
  "width (perform a operation) = width a" "height (perform a operation) = height a"
  by (cases operation;
      simp add: addEntity_def deleteEntity_def moveEntity_def Let_def split: sum.splits)+

lemma areCoordinatesValid_perform [simp]:
  "areCoordinatesValid (perform a operation) xy = areCoordinatesValid a xy"
  by (simp add: areCoordinatesValid_def)

lemma areCoordinatesValid_entities_update [simp]:
  "areCoordinatesValid (a\<lparr>entities := es\<rparr>) xy = areCoordinatesValid a xy"
  by (simp add: areCoordinatesValid_def)

lemma wellFormed_addEntity:
  assumes "entitiesWellFormed a" "areCoordinatesValid a xy" "entityType \<noteq> None"
  shows "entitiesWellFormed (snd (addEntity a xy entityType))"
  using assms unfolding entitiesWellFormed_def addEntity_def Let_def toString_def
  by (auto split: if_splits key.splits)

lemma wellFormed_deleteEntity:
  assumes "entitiesWellFormed a"
  shows "entitiesWellFormed (deleteEntity a xy)"
  using assms unfolding entitiesWellFormed_def deleteEntity_def
  by (auto split: if_splits key.splits)

lemma wellFormed_moveEntity:
  assumes wf: "entitiesWellFormed a" and occ: "has (entities a) (toString xy)"
  shows "entitiesWellFormed (fst (snd (moveEntity a xy dir)))"
proof (cases "move xy dir")
  case (Inl e)
  then show ?thesis using wf by (simp add: moveEntity_def)
next
  case (Inr n)
  show ?thesis
  proof (cases "isValidAgentPosition a n")
    case False
    then show ?thesis using wf Inr by (simp add: moveEntity_def)
  next
    case True
    from occ obtain v where v: "entities a (toString xy) = Some v"
      by (auto simp: has_def)
    with wf obtain t where t: "v = Some t" "t \<noteq> Empty"
      unfolding entitiesWellFormed_def by blast
    have inb: "areCoordinatesValid a n"
      using True by (simp add: isValidAgentPosition_def)
    show ?thesis
      using wf Inr True v t inb
      unfolding entitiesWellFormed_def moveEntity_def Let_def get_def toString_def
      by (auto split: if_splits key.splits)
  qed
qed

lemma wellFormed_perform:
  "entitiesWellFormed a \<Longrightarrow> admissible a operation \<Longrightarrow> entitiesWellFormed (perform a operation)"
  by (cases operation)
     (simp_all add: wellFormed_addEntity wellFormed_deleteEntity wellFormed_moveEntity)

text \<open>
  C7. \<open>addEntity\<close> on a cell whose key is already in the map throws the overlap error and
  leaves the area as it was; on a cell whose key is absent it does not throw;
  \<open>deleteEntity\<close> on a cell whose key is absent leaves the area as it was.
\<close>

theorem addEntity_deleteEntity_occupancy:
  "(has (entities a) (toString xy) \<longrightarrow> addEntity a xy entityType = (Some OverlapError, a)) \<and>
   (\<not> has (entities a) (toString xy) \<longrightarrow>
      fst (addEntity a xy entityType) = None \<and> deleteEntity a xy = a)"
  by (auto simp: addEntity_def deleteEntity_def has_def Let_def fun_upd_idem)

theorem addEntity_deleteEntity_occupancy_witness:
  "addEntity (snd (addEntity (newArea 3 2 False) (1, 1) (Some Wall))) (1, 1) (Some Agent) =
     (Some OverlapError, snd (addEntity (newArea 3 2 False) (1, 1) (Some Wall))) \<and>
   fst (addEntity (newArea 3 2 False) (1, 1) (Some Agent)) = None \<and>
   deleteEntity (newArea 3 2 False) (1, 1) = newArea 3 2 False"
  using addEntity_deleteEntity_occupancy
          [of "snd (addEntity (newArea 3 2 False) (1, 1) (Some Wall))" "(1, 1)" "Some Agent"]
        addEntity_deleteEntity_occupancy [of "newArea 3 2 False" "(1, 1)" "Some Agent"]
  by (simp add: addEntity_def newArea_def has_def toString_def)

text \<open>
  C8. For a recognised direction, with \<open>n\<close> the cell one step from \<open>xy\<close>: if \<open>n\<close> is a valid
  agent position, \<open>moveEntity\<close> returns \<open>n\<close>, whatever entry \<open>xy\<close> held is now the entry of
  \<open>n\<close>, the key of \<open>xy\<close> is gone, and every other key and every other field is as before;
  otherwise the area is returned unchanged together with \<open>xy\<close>.
\<close>

theorem moveEntity_frame:
  assumes "dir \<noteq> OtherDirection"
  shows "\<exists>n. move xy dir = Inr n \<and>
     (if isValidAgentPosition a n
      then \<exists>a'. moveEntity a xy dir = (None, a', n) \<and>
             (\<forall>v. entities a (toString xy) = Some v \<longrightarrow> entities a' (toString n) = Some v) \<and>
             entities a' (toString xy) = None \<and>
             (\<forall>k. k \<noteq> toString xy \<and> k \<noteq> toString n \<longrightarrow> entities a' k = entities a k) \<and>
             width a' = width a \<and> height a' = height a \<and>
             allowDiagonalsInPaths a' = allowDiagonalsInPaths a
      else moveEntity a xy dir = (None, a, xy))"
proof -
  from assms obtain n where n: "move xy dir = Inr n"
    using move_Inr_iff by blast
  have "n \<noteq> xy" using n by (rule move_neq)
  then show ?thesis
    using n by (auto simp: moveEntity_def Let_def toString_def get_def)
qed

text \<open>
  In the corridor the agent at (0,0) moves right to the free cell (1,0): the agent is the
  entry of (1,0), (0,0) has no entry, and the destination marker and the enemy stay where
  they are. Moving it up, out of the grid, changes nothing.
\<close>

theorem moveEntity_frame_witness:
  "(\<exists>a'. moveEntity corridor (0, 0) Right = (None, a', (1, 0)) \<and>
         entities a' (toString (1, 0)) = Some (Some Agent) \<and>
         entities a' (toString (0, 0)) = None \<and>
         entities a' (toString (2, 0)) = Some (Some Destination) \<and>
         entities a' (toString (3, 0)) = Some (Some Enemy) \<and>
         width a' = 4 \<and> height a' = 1 \<and> \<not> allowDiagonalsInPaths a') \<and>
   moveEntity corridor (0, 0) Up = (None, corridor, (0, 0))"
proof -
  have valid: "isValidAgentPosition corridor (1, 0)" "\<not> isValidAgentPosition corridor (0, -1)"
    by (simp_all add: isValidAgentPosition_def areCoordinatesValid_def corridor_def newArea_def
          get_def toString_def)
  have occupant: "entities corridor (toString (0, 0)) = Some (Some Agent)"
    and others: "entities corridor (toString (2, 0)) = Some (Some Destination)"
      "entities corridor (toString (3, 0)) = Some (Some Enemy)"
    and fields: "width corridor = 4" "height corridor = 1" "\<not> allowDiagonalsInPaths corridor"
    by (simp_all add: corridor_def newArea_def toString_def)
  have r: "Right \<noteq> OtherDirection" and u: "Up \<noteq> OtherDirection" by simp_all
  from moveEntity_frame [OF r, of "(0, 0)" corridor] valid(1) occupant others fields
  have one: "\<exists>a'. moveEntity corridor (0, 0) Right = (None, a', (1, 0)) \<and>
         entities a' (toString (1, 0)) = Some (Some Agent) \<and>
         entities a' (toString (0, 0)) = None \<and>
         entities a' (toString (2, 0)) = Some (Some Destination) \<and>
         entities a' (toString (3, 0)) = Some (Some Enemy) \<and>
         width a' = 4 \<and> height a' = 1 \<and> \<not> allowDiagonalsInPaths a'"
    by (auto simp: toString_def)
  from moveEntity_frame [OF u, of "(0, 0)" corridor] valid(2)
  have two: "moveEntity corridor (0, 0) Up = (None, corridor, (0, 0))"
    by simp
  from one two show ?thesis by simp
qed

text \<open>
  C6, as stated, fails: \<open>addEntity\<close> does not look at the grid bounds, and \<open>moveEntity\<close>
  on a cell without an entry stores \<open>undefined\<close> at the target.
\<close>

theorem entitiesWellFormed_counterexample:
  "\<not> entitiesWellFormed (performAll (newArea 1 1 False) [AddEntity (5, 5) (Some Wall)]) \<and>
   \<not> entitiesWellFormed (performAll (newArea 2 1 False) [MoveEntity (0, 0) Right])"
proof -
  have "entities (performAll (newArea 1 1 False) [AddEntity (5, 5) (Some Wall)]) (Str (5, 5))
          = Some (Some Wall)"
    by (simp add: performAll_def addEntity_def newArea_def has_def toString_def)
  moreover have "\<not> areCoordinatesValid
          (performAll (newArea 1 1 False) [AddEntity (5, 5) (Some Wall)]) (5, 5)"
    by (simp add: performAll_def areCoordinatesValid_def newArea_def addEntity_def Let_def)
  ultimately have one:
    "\<not> entitiesWellFormed (performAll (newArea 1 1 False) [AddEntity (5, 5) (Some Wall)])"
    unfolding entitiesWellFormed_def by fastforce
  have "entities (performAll (newArea 2 1 False) [MoveEntity (0, 0) Right]) (Str (1, 0))
          = Some None"
    by (simp add: performAll_def moveEntity_def newArea_def isValidAgentPosition_def
          areCoordinatesValid_def get_def toString_def)
  then have two:
    "\<not> entitiesWellFormed (performAll (newArea 2 1 False) [MoveEntity (0, 0) Right])"
    unfolding entitiesWellFormed_def by blast
  from one two show ?thesis by simp
qed

text \<open>
  C6, amended. From a well-formed store, a run in which every \<open>addEntity\<close> gets
  coordinates inside the grid and a defined entity type, and every \<open>moveEntity\<close> is
  applied to a cell that holds an entry, ends in a well-formed store: every key is a
  coordinate inside the grid and maps to an entity type other than \<open>"empty"\<close>.
\<close>

theorem entitiesWellFormed_performAll:
  "entitiesWellFormed a \<Longrightarrow> allAdmissible a ops \<Longrightarrow> entitiesWellFormed (performAll a ops)"
  unfolding performAll_def
  by (induction ops arbitrary: a) (simp_all add: wellFormed_perform)

theorem entitiesWellFormed_performAll_witness:
  "entitiesWellFormed (newArea 3 2 False) \<and>
   allAdmissible (newArea 3 2 False)
     [AddEntity (0, 0) (Some Agent), MoveEntity (0, 0) Right, AddEntity (2, 1) (Some Wall),
      DeleteEntity (2, 1)] \<and>
   entitiesWellFormed (performAll (newArea 3 2 False)
     [AddEntity (0, 0) (Some Agent), MoveEntity (0, 0) Right, AddEntity (2, 1) (Some Wall),
      DeleteEntity (2, 1)])"
proof -
  have wf: "entitiesWellFormed (newArea 3 2 False)"
    by (simp add: entitiesWellFormed_def newArea_def)
  have adm: "allAdmissible (newArea 3 2 False)
     [AddEntity (0, 0) (Some Agent), MoveEntity (0, 0) Right, AddEntity (2, 1) (Some Wall),
      DeleteEntity (2, 1)]"
    by (simp add: addEntity_def moveEntity_def newArea_def has_def toString_def Let_def
          areCoordinatesValid_def isValidAgentPosition_def get_def)
  from wf adm entitiesWellFormed_performAll [OF wf adm] show ?thesis by simp
qed

section \<open>Pursuit: the blocked candidate cell\<close>

lemma withinProximity_detection:
  "withinProximity p enemyDetectionProximity q \<longleftrightarrow>
     (fst p - fst q) * (fst p - fst q) + (snd p - snd q) * (snd p - snd q) \<le> 36"
proof -
  let ?n = "(fst p - fst q) * (fst p - fst q) + (snd p - snd q) * (snd p - snd q)"
  have abs: "\<bar>fst p - fst q\<bar> * \<bar>fst p - fst q\<bar> + \<bar>snd p - snd q\<bar> * \<bar>snd p - snd q\<bar> = ?n"
    by (simp add: abs_mult_self_eq)
  have "sqrt (real_of_int ?n) \<le> 6 \<longleftrightarrow> sqrt (real_of_int ?n) \<le> sqrt 36"
    by simp
  also have "\<dots> \<longleftrightarrow> real_of_int ?n \<le> 36"
    by (rule real_sqrt_le_iff)
  also have "\<dots> \<longleftrightarrow> ?n \<le> 36"
    by linarith
  finally show ?thesis
    unfolding withinProximity_def enemyDetectionProximity_def magnitude_def difference_def
    using abs by simp
qed

lemma corridor_path:
  "findDijkstraPath corridor (0, 0) (3, 0) (constantly 0) = Some [(2, 0), (1, 0)]"
  by code_simp

text \<open>
  In a store whose keys are all strings the lookup with the object key reads \<open>undefined\<close>,
  so whenever the candidate cell holds an entry the callback overwrites the enemy's
  position, deletes its old cell, and \<open>addEntity\<close> throws.
\<close>

lemma pursue_occupied:
  assumes idx: "index < length (enemyPositions g)"
    and alive: "enemyPositions g ! index \<noteq> agentPosition g"
    and near: "withinProximity (agentPosition g) enemyDetectionProximity (enemyPositions g ! index)"
    and path: "findDijkstraPath (gameArea g) (agentPosition g) (enemyPositions g ! index)
                 (constantly 0) = Some (newPosition # rest)"
    and strings: "\<forall>xy. entities (gameArea g) (Obj xy) = None"
    and occupied: "has (entities (gameArea g)) (toString newPosition)"
    and other: "newPosition \<noteq> enemyPositions g ! index"
  shows "pursue g index =
     Some (Some (Thrown OverlapError),
           g\<lparr>enemyPositions := (enemyPositions g)[index := newPosition],
              gameArea := deleteEntity (gameArea g) (enemyPositions g ! index)\<rparr>)"
proof -
  from strings have "entities (gameArea g) (Obj newPosition) = None" by blast
  then have look: "get (entities (gameArea g)) (Obj newPosition) = None"
    by (simp add: get_def)
  have still: "has (entities (deleteEntity (gameArea g) (enemyPositions g ! index)))
                 (toString newPosition)"
    using occupied other by (simp add: deleteEntity_def has_def toString_def)
  then have "addEntity (deleteEntity (gameArea g) (enemyPositions g ! index)) newPosition
               (Some Enemy)
             = (Some OverlapError, deleteEntity (gameArea g) (enemyPositions g ! index))"
    by (simp add: addEntity_def)
  with idx alive near path look show ?thesis
    by (simp add: pursue_def Let_def)
qed

text \<open>
  C5 at the corridor: the candidate cell (2,0) holds the destination marker, yet the
  lookup with the object key reads \<open>undefined\<close>, so the enemy's position is overwritten,
  its old cell is deleted, and \<open>addEntity\<close> throws the overlap error.
\<close>

theorem pursue_corridor:
  "pursue corridorGame 0 =
     Some (Some (Thrown OverlapError),
           corridorGame\<lparr>enemyPositions := [(2, 0)],
                         gameArea := deleteEntity corridor (3, 0)\<rparr>)"
  using corridor_path
  by (simp add: pursue_def corridorGame_def withinProximity_detection Let_def get_def
        corridor_def newArea_def deleteEntity_def addEntity_def toString_def has_def)

section \<open>Depth-first search: visited set and stack depth\<close>

lemma visited_grows:
  "findDepthFirstPath n a s d V f nav = Some (p, V', nav') \<Longrightarrow> V \<subseteq> V'"
  "tryNeighbours n a ns d V f nav = Some (p, V', nav') \<Longrightarrow> V \<subseteq> V'"
proof (induction n a s d V f nav and n a ns d V f nav arbitrary: p V' nav' and p V' nav'
       rule: findDepthFirstPath_tryNeighbours.induct)
  case (1 a source destination visitedNodes sortNeighbours navigated)
  then show ?case by simp
next
  case (2 n a source destination visitedNodes sortNeighbours navigated)
  show ?case
  proof (cases "source = destination")
    case True
    with "2.prems" show ?thesis by (simp add: Let_def)
  next
    case False
    let ?V1 = "insert source visitedNodes"
    let ?unv = "sortNeighbours (filter (\<lambda>neighbour. isValidAgentPosition a neighbour \<and>
                   neighbour \<notin> ?V1) (getNeighbours source (allowDiagonalsInPaths a)))"
    show ?thesis
    proof (cases "?unv = []")
      case True
      with False "2.prems" show ?thesis by (auto simp: Let_def)
    next
      case ne: False
      with False "2.prems" have
        "tryNeighbours n a ?unv destination ?V1 sortNeighbours (navigated @ [source])
           = Some (p, V', nav')"
        by (simp add: Let_def)
      from "2.IH" [OF refl False refl refl refl ne this] show ?thesis by blast
    qed
  qed
next
  case (3 n a destination visitedNodes sortNeighbours navigated)
  then show ?case by simp
next
  case (4 n a neighbour rest destination visitedNodes sortNeighbours navigated)
  from "4.prems" obtain q V1 nav1 where
    first: "findDepthFirstPath n a neighbour destination visitedNodes sortNeighbours navigated
              = Some (q, V1, nav1)"
    by (auto split: option.splits)
  from "4.IH"(1) [OF first] have sub: "visitedNodes \<subseteq> V1" .
  show ?case
  proof (cases "q = []")
    case False
    with "4.prems" first have "V' = V1" by simp
    with sub show ?thesis by simp
  next
    case True
    with "4.prems" first have
      "tryNeighbours n a rest destination V1 sortNeighbours nav1 = Some (p, V', nav')"
      by simp
    from "4.IH"(2) [OF first refl refl _ this] True sub show ?thesis by auto
  qed
qed

text \<open>A deeper call stack does not change what a search returns.\<close>

lemma deeper_stack:
  "findDepthFirstPath n a s d V f nav = Some r \<Longrightarrow>
     findDepthFirstPath (Suc n) a s d V f nav = Some r"
  "tryNeighbours n a ns d V f nav = Some r \<Longrightarrow>
     tryNeighbours (Suc n) a ns d V f nav = Some r"
proof (induction n a s d V f nav and n a ns d V f nav arbitrary: r and r
       rule: findDepthFirstPath_tryNeighbours.induct)
  case (1 a source destination visitedNodes sortNeighbours navigated)
  then show ?case by simp
next
  case (2 n a source destination visitedNodes sortNeighbours navigated)
  show ?case
  proof (cases "source = destination")
    case True
    with "2.prems" show ?thesis by (simp add: Let_def)
  next
    case False
    let ?V1 = "insert source visitedNodes"
    let ?unv = "sortNeighbours (filter (\<lambda>neighbour. isValidAgentPosition a neighbour \<and>
                   neighbour \<notin> ?V1) (getNeighbours source (allowDiagonalsInPaths a)))"
    show ?thesis
    proof (cases "?unv = []")
      case True
      with False "2.prems" show ?thesis by (simp add: Let_def)
    next
      case ne: False
      with False "2.prems" have
        "tryNeighbours n a ?unv destination ?V1 sortNeighbours (navigated @ [source]) = Some r"
        by (simp add: Let_def)
      from "2.IH" [OF refl False refl refl refl ne this]
      have "tryNeighbours (Suc n) a ?unv destination ?V1 sortNeighbours
              (navigated @ [source]) = Some r" .
      with False ne show ?thesis
        by (simp add: Let_def findDepthFirstPath.simps(2) [of "Suc n"])
    qed
  qed
next
  case (3 n a destination visitedNodes sortNeighbours navigated)
  then show ?case by simp
next
  case (4 n a neighbour rest destination visitedNodes sortNeighbours navigated)
  from "4.prems" obtain q V1 nav1 where
    first: "findDepthFirstPath n a neighbour destination visitedNodes sortNeighbours navigated
              = Some (q, V1, nav1)"
    by (auto split: option.splits)
  from "4.IH"(1) [OF first] have first':
    "findDepthFirstPath (Suc n) a neighbour destination visitedNodes sortNeighbours navigated
       = Some (q, V1, nav1)" .
  show ?case
  proof (cases "q = []")
    case False
    with "4.prems" first have "r = (q, V1, nav1)" by simp
    with first' False show ?thesis by simp
  next
    case True
    with "4.prems" first have
      "tryNeighbours n a rest destination V1 sortNeighbours nav1 = Some r"
      by simp
    from "4.IH"(2) [OF first refl refl _ this] True have
      "tryNeighbours (Suc n) a rest destination V1 sortNeighbours nav1 = Some r"
      by simp
    with first' True show ?thesis by simp
  qed
qed

lemma valid_subset_grid:
  "{xy. isValidAgentPosition a xy} \<subseteq> {0..<width a} \<times> {0..<height a}"
  by (auto simp: isValidAgentPosition_def areCoordinatesValid_def)

lemma finite_valid: "finite {xy. isValidAgentPosition a xy}"
  by (rule finite_subset [OF valid_subset_grid]) simp

lemma card_valid: "card {xy. isValidAgentPosition a xy} \<le> nat (width a * height a)"
proof -
  have "card {xy. isValidAgentPosition a xy} \<le> card ({0..<width a} \<times> {0..<height a})"
    by (rule card_mono [OF _ valid_subset_grid]) simp
  also have "\<dots> = nat (width a) * nat (height a)"
    by (simp add: card_cartesian_product)
  also have "\<dots> \<le> nat (width a * height a)"
  proof (cases "0 \<le> width a \<and> 0 \<le> height a")
    case True
    then show ?thesis by (simp add: nat_mult_distrib)
  next
    case False
    then have "nat (width a) = 0 \<or> nat (height a) = 0" by auto
    then have z: "nat (width a) * nat (height a) = 0" by auto
    show ?thesis unfolding z by simp
  qed
  finally show ?thesis .
qed

lemma finite_pending: "finite (pending a V)"
  by (rule finite_subset [OF _ finite_valid [of a]]) (auto simp: pending_def)

lemma pending_mono: "V \<subseteq> V' \<Longrightarrow> card (pending a V') \<le> card (pending a V)"
  by (rule card_mono [OF finite_pending]) (auto simp: pending_def)

lemma pending_insert:
  "x \<in> pending a V \<Longrightarrow> card (pending a (insert x V)) < card (pending a V)"
proof -
  assume x: "x \<in> pending a V"
  have "pending a (insert x V) = pending a V - {x}"
    by (auto simp: pending_def)
  then show ?thesis
    using card_Diff1_less [OF finite_pending [of a V] x] by simp
qed

lemma depth_suffices:
  "(\<And>xs. set (f xs) \<subseteq> set xs) \<Longrightarrow> card (pending a (insert s V)) < n \<Longrightarrow>
     \<exists>r. findDepthFirstPath n a s d V f nav = Some r"
  "(\<And>xs. set (f xs) \<subseteq> set xs) \<Longrightarrow> \<forall>x\<in>set ns. card (pending a (insert x V)) < n \<Longrightarrow>
     \<exists>r. tryNeighbours n a ns d V f nav = Some r"
proof (induction n a s d V f nav and n a ns d V f nav
       rule: findDepthFirstPath_tryNeighbours.induct)
  case (1 a source destination visitedNodes sortNeighbours navigated)
  then show ?case by simp
next
  case (2 n a source destination visitedNodes sortNeighbours navigated)
  show ?case
  proof (cases "source = destination")
    case True
    then show ?thesis by (simp add: Let_def)
  next
    case False
    let ?V1 = "insert source visitedNodes"
    let ?unv = "sortNeighbours (filter (\<lambda>neighbour. isValidAgentPosition a neighbour \<and>
                   neighbour \<notin> ?V1) (getNeighbours source (allowDiagonalsInPaths a)))"
    show ?thesis
    proof (cases "?unv = []")
      case True
      with False show ?thesis by (simp add: Let_def)
    next
      case ne: False
      have "\<forall>x\<in>set ?unv. card (pending a (insert x ?V1)) < n"
      proof
        fix x assume "x \<in> set ?unv"
        with "2.prems"(1) have "x \<in> pending a ?V1"
          by (fastforce simp: pending_def)
        from pending_insert [OF this] "2.prems"(2) show "card (pending a (insert x ?V1)) < n"
          by simp
      qed
      from "2.IH" [OF refl False refl refl refl ne "2.prems"(1) this]
      show ?thesis using False ne by (simp add: Let_def)
    qed
  qed
next
  case (3 n a destination visitedNodes sortNeighbours navigated)
  then show ?case by simp
next
  case (4 n a neighbour rest destination visitedNodes sortNeighbours navigated)
  from "4.IH"(1) [OF "4.prems"(1)] "4.prems"(2) obtain q V1 nav1 where
    first: "findDepthFirstPath n a neighbour destination visitedNodes sortNeighbours navigated
              = Some (q, V1, nav1)"
    by (cases "findDepthFirstPath n a neighbour destination visitedNodes sortNeighbours navigated")
       auto
  from visited_grows(1) [OF first] have sub: "visitedNodes \<subseteq> V1" .
  show ?case
  proof (cases "q = []")
    case False
    with first show ?thesis by simp
  next
    case True
    have "\<forall>x\<in>set rest. card (pending a (insert x V1)) < n"
    proof
      fix x assume x: "x \<in> set rest"
      have "card (pending a (insert x V1)) \<le> card (pending a (insert x visitedNodes))"
        using sub by (intro pending_mono) auto
      with "4.prems"(2) x show "card (pending a (insert x V1)) < n" by fastforce
    qed
    from "4.IH"(2) [OF first refl refl _ "4.prems"(1) this] True first show ?thesis
      by simp
  qed
qed

lemma set_sortByDistanceTo: "set (sortByDistanceTo d xs) = set xs"
  by (simp add: sortByDistanceTo_def set_stableSort)

text \<open>
  Two parts of what one search is meant to do hold as they are. The visited set that a
  search hands back contains the one it was given, whatever the depth of the stack
  (\<open>visited_grows\<close>). And for every source inside the grid, a wall cell included, and for
  the neighbour order of either depth-first routine, a call stack of depth W times H is
  enough for the search to return: every nested call takes one more cell out of the valid
  cells not yet visited, also when it enters a cell a second time.
\<close>

lemma findDepthFirstPath_depth_in_grid:
  assumes "areCoordinatesValid a source"
    and "sortNeighbours = id \<or> sortNeighbours = sortByDistanceTo destination"
  shows "\<exists>result. findDepthFirstPath (nat (width a * height a)) a source destination
            visitedNodes sortNeighbours navigated = Some result"
proof -
  have sub: "set (sortNeighbours xs) \<subseteq> set xs" for xs
    using assms(2) by (auto simp: set_sortByDistanceTo)
  let ?grid = "{0..<width a} \<times> {0..<height a}"
  have src: "source \<in> ?grid"
    using assms(1) by (cases source) (simp add: areCoordinatesValid_def)
  have "pending a (insert source visitedNodes) \<subseteq> ?grid - {source}"
    using valid_subset_grid [of a] by (auto simp: pending_def)
  then have "card (pending a (insert source visitedNodes)) \<le> card (?grid - {source})"
    by (intro card_mono) simp_all
  also have "\<dots> < card ?grid"
    using src by (intro card_Diff1_less) simp_all
  also have "\<dots> = nat (width a) * nat (height a)"
    by (simp add: card_cartesian_product)
  also have "\<dots> = nat (width a * height a)"
    using assms(1) by (simp add: areCoordinatesValid_def nat_mult_distrib)
  finally have "card (pending a (insert source visitedNodes)) < nat (width a * height a)" .
  from depth_suffices(1) [OF sub this] show ?thesis .
qed

text \<open>
  The source itself is never checked against the grid. From a source outside a 1 by 1
  grid a stack of depth 1 is not enough, while depth 2 is.
\<close>

lemma findDepthFirstPath_depth_outside_grid:
  "findDepthFirstPath 1 (newArea 1 1 False) (1, 0) (5, 5) {} id [] = None \<and>
   map_option fst (findDepthFirstPath 2 (newArea 1 1 False) (1, 0) (5, 5) {} id []) = Some []"
  by code_simp

lemma isValidAgentPosition_detour:
  "isValidAgentPosition detour (x, y) \<longleftrightarrow>
     0 \<le> x \<and> x < 4 \<and> 0 \<le> y \<and> y < 4 \<and>
     (x, y) \<noteq> (0, 1) \<and> (x, y) \<noteq> (1, 1) \<and> (x, y) \<noteq> (2, 2)"
  by (auto simp: isValidAgentPosition_def areCoordinatesValid_def detour_def newArea_def
        get_def toString_def)

lemma allowDiagonalsInPaths_detour: "allowDiagonalsInPaths detour = False"
  by (simp add: detour_def newArea_def)

text \<open>
  C4. A cell can be entered twice. The search keeps \<open>visitedNodes\<close> in order to skip the
  cells it has been to, but it filters the neighbours of its source once, before the loop
  that searches from each of them; a neighbour that an earlier round of the loop has
  visited in the meantime is still in the list. In the pocket area, searching from (1,1)
  to (3,1), the unvisited neighbours of (1,1) are (1,0), (0,1) and (2,1). The round for
  (1,0) goes on to (0,0) and (0,1) and comes back empty; the round for (0,1) then enters
  (0,1) again. Every call pushes its source onto \<open>navigated\<close>, and the path handed back is
  \<open>navigated\<close> without its first and last element, so (0,1) is in it twice. The
  directional search does the same in the detour area from (1,3) to (1,0): the round for
  (1,2) visits (0,2) and (0,3), and the round for (0,3) enters (0,3) again.
\<close>

theorem findDepthFirstPath_reenters:
  "map_option fst (findDepthFirstPath 12 pocket (1, 1) (3, 1) {} id []) =
     Some [(1, 0), (0, 0), (0, 1), (0, 1), (2, 1)] \<and>
   map_option fst (findDepthFirstPathDirectionally 16 detour (1, 3) (1, 0) {}) =
     Some [(1, 2), (0, 2), (0, 3), (0, 3), (2, 3), (3, 3), (3, 2), (3, 1), (2, 1), (2, 0)]"
proof
  show "map_option fst (findDepthFirstPath 12 pocket (1, 1) (3, 1) {} id []) =
     Some [(1, 0), (0, 0), (0, 1), (0, 1), (2, 1)]"
    by code_simp
  show "map_option fst (findDepthFirstPathDirectionally 16 detour (1, 3) (1, 0) {}) =
     Some [(1, 2), (0, 2), (0, 3), (0, 3), (2, 3), (3, 3), (3, 2), (3, 1), (2, 1), (2, 0)]"
    by (simp add: findDepthFirstPathDirectionally_def numeral_eq_Suc
          isValidAgentPosition_detour allowDiagonalsInPaths_detour getNeighbours_def
          sortByDistanceTo_def stableSort_def magnitude_def difference_def Let_def)
qed

section \<open>Determinism\<close>

lemma sameTerrain_valid: "sameTerrain a b \<Longrightarrow> isValidAgentPosition a = isValidAgentPosition b"
  by (auto simp: sameTerrain_def isValidAgentPosition_def areCoordinatesValid_def fun_eq_iff)

lemma findDepthFirstPath_terrain:
  assumes v: "isValidAgentPosition a = isValidAgentPosition b"
    and g: "allowDiagonalsInPaths a = allowDiagonalsInPaths b"
  shows "findDepthFirstPath n a s d V f nav = findDepthFirstPath n b s d V f nav"
    and "tryNeighbours n a ns d V f nav = tryNeighbours n b ns d V f nav"
  using v g
proof (induction n a s d V f nav and n a ns d V f nav
       rule: findDepthFirstPath_tryNeighbours.induct)
  case (1 a source destination visitedNodes sortNeighbours navigated)
  then show ?case by simp
next
  case (2 n a source destination visitedNodes sortNeighbours navigated)
  show ?case
  proof (cases "source = destination")
    case True
    then show ?thesis by (simp add: Let_def)
  next
    case False
    let ?V1 = "insert source visitedNodes"
    let ?unv = "sortNeighbours (filter (\<lambda>neighbour. isValidAgentPosition a neighbour \<and>
                   neighbour \<notin> ?V1) (getNeighbours source (allowDiagonalsInPaths a)))"
    show ?thesis
    proof (cases "?unv = []")
      case True
      with False "2.prems" show ?thesis by (simp add: Let_def)
    next
      case ne: False
      from "2.IH" [OF refl False refl refl refl ne "2.prems"]
      show ?thesis using False ne "2.prems" by (simp add: Let_def)
    qed
  qed
next
  case (3 n a destination visitedNodes sortNeighbours navigated)
  then show ?case by simp
next
  case (4 n a neighbour rest destination visitedNodes sortNeighbours navigated)
  note first = "4.IH"(1) [OF "4.prems"]
  show ?case
  proof (cases "findDepthFirstPath n a neighbour destination visitedNodes sortNeighbours navigated")
    case None
    with first show ?thesis by simp
  next
    case (Some r)
    obtain q V1 nav1 where r: "r = (q, V1, nav1)" by (cases r)
    show ?thesis
    proof (cases "q = []")
      case False
      with Some r first show ?thesis by simp
    next
      case True
      then have "\<not> q \<noteq> []" by simp
      from "4.IH"(2) [OF Some [unfolded r] refl refl this "4.prems"]
      show ?thesis using Some r first True by simp
    qed
  qed
qed

lemma cells_terrain: "width a = width b \<Longrightarrow> height a = height b \<Longrightarrow> cells a = cells b"
  by (simp add: cells_def)

lemma initialDijkstra_terrain:
  "sameTerrain a b \<Longrightarrow> initialDijkstra a s = initialDijkstra b s"
proof -
  assume t: "sameTerrain a b"
  have "addCell a s st xy = addCell b s st xy" for st xy
    unfolding addCell_def sameTerrain_valid [OF t] by (rule refl)
  then have "addCell a s = addCell b s"
    by (intro ext)
  moreover have "cells a = cells b"
    using t by (intro cells_terrain) (simp_all add: sameTerrain_def)
  ultimately show ?thesis by (simp add: initialDijkstra_def)
qed

lemma visit_terrain:
  "allowDiagonalsInPaths a = allowDiagonalsInPaths b \<Longrightarrow> visit a h st = visit b h st"
  by (simp add: visit_def)

lemma dijkstraLoop_terrain:
  "allowDiagonalsInPaths a = allowDiagonalsInPaths b \<Longrightarrow>
     dijkstraLoop a d h st = dijkstraLoop b d h st"
proof (induction a d h st rule: dijkstraLoop.induct)
  case (1 a destination getHeuristic st)
  have step: "dijkstraLoop c destination getHeuristic st =
     (if unvisitedNodes st = [] then Some []
      else if nextNode st = destination
      then collectPath (previousDistances st) (previousDistances st (nextNode st)) []
      else dijkstraLoop c destination getHeuristic (visit c getHeuristic st))" for c
    by (rule dijkstraLoop.simps)
  show ?case
  proof (cases "unvisitedNodes st = [] \<or> nextNode st = destination")
    case True
    then show ?thesis
      unfolding step [of a] step [of b] by auto
  next
    case False
    with "1.IH" "1.prems" have
      "dijkstraLoop a destination getHeuristic (visit a getHeuristic st)
         = dijkstraLoop b destination getHeuristic (visit a getHeuristic st)"
      by simp
    with False visit_terrain [OF "1.prems"] show ?thesis
      unfolding step [of a] step [of b] by simp
  qed
qed

text \<open>
  C10. On two areas with the same walls, dimensions and diagonal flag, each of the four
  routines returns the same result for the same source and destination (and, for the
  depth-first searches, the same stack depth, visited set and navigated array).
\<close>

theorem pathfinding_deterministic:
  assumes "sameTerrain a b"
  shows "findDepthFirstPath n a s d V f nav = findDepthFirstPath n b s d V f nav \<and>
         findDepthFirstPathDirectionally n a s d V = findDepthFirstPathDirectionally n b s d V \<and>
         findDijkstraPath a s d h = findDijkstraPath b s d h \<and>
         findAStarPath a s d = findAStarPath b s d"
proof -
  have v: "isValidAgentPosition a = isValidAgentPosition b"
    using assms by (rule sameTerrain_valid)
  have g: "allowDiagonalsInPaths a = allowDiagonalsInPaths b"
    using assms by (simp add: sameTerrain_def)
  have dij: "findDijkstraPath a s d k = findDijkstraPath b s d k" for k
    unfolding findDijkstraPath_def initialDijkstra_terrain [OF assms]
    by (rule dijkstraLoop_terrain [OF g])
  show ?thesis
    using findDepthFirstPath_terrain(1) [OF v g] dij
    by (simp add: findDepthFirstPathDirectionally_def findAStarPath_def)
qed

theorem pathfinding_deterministic_witness:
  "sameTerrain pocket (snd (addEntity pocket (3, 1) (Some Destination))) \<and>
   findDepthFirstPath 12 pocket (1, 1) (3, 1) {} id [] =
     findDepthFirstPath 12 (snd (addEntity pocket (3, 1) (Some Destination))) (1, 1) (3, 1)
       {} id [] \<and>
   findDepthFirstPathDirectionally 12 pocket (1, 1) (3, 1) {} =
     findDepthFirstPathDirectionally 12 (snd (addEntity pocket (3, 1) (Some Destination)))
       (1, 1) (3, 1) {} \<and>
   findDijkstraPath pocket (1, 1) (3, 1) (constantly 0) =
     findDijkstraPath (snd (addEntity pocket (3, 1) (Some Destination))) (1, 1) (3, 1)
       (constantly 0) \<and>
   findAStarPath pocket (1, 1) (3, 1) =
     findAStarPath (snd (addEntity pocket (3, 1) (Some Destination))) (1, 1) (3, 1)"
proof -
  have t: "sameTerrain pocket (snd (addEntity pocket (3, 1) (Some Destination)))"
    by (simp add: sameTerrain_def addEntity_def pocket_def newArea_def has_def toString_def
          get_def Let_def)
  from t pathfinding_deterministic [OF t] show ?thesis by simp
qed

section \<open>Dijkstra: the loop invariant\<close>

subsection \<open>Sorting: the first element is least\<close>

lemma hd_insertBy:
  "hd (insertBy lt v ws) = (if ws \<noteq> [] \<and> lt (hd ws) v then hd ws else v)"
  by (cases ws) auto

lemma insertBy_not_Nil: "insertBy lt v ws \<noteq> []"
  by (cases ws) auto

lemma stableSort_Cons: "stableSort lt (v # vs) = insertBy lt v (stableSort lt vs)"
  by (simp add: stableSort_def)

lemma stableSort_single: "stableSort lt [v] = [v]"
  by (simp add: stableSort_def)

lemma hd_stableSort_least:
  assumes asym: "\<And>p q. p \<in> set vs \<Longrightarrow> q \<in> set vs \<Longrightarrow> lt p q \<Longrightarrow> \<not> lt q p"
    and ntrans: "\<And>p q r. p \<in> set vs \<Longrightarrow> q \<in> set vs \<Longrightarrow> r \<in> set vs \<Longrightarrow>
                   \<not> lt p q \<Longrightarrow> \<not> lt q r \<Longrightarrow> \<not> lt p r"
    and ne: "vs \<noteq> []"
  shows "\<forall>v\<in>set vs. \<not> lt v (hd (stableSort lt vs))"
  using assms
proof (induction vs)
  case Nil
  from Nil.prems(3) show ?case by simp
next
  case (Cons v vs)
  have irrefl: "\<not> lt v v"
  proof
    assume "lt v v"
    with Cons.prems(1) [of v v] show False by fastforce
  qed
  show ?case
  proof (cases "vs = []")
    case True
    with irrefl show ?thesis
      by (simp add: stableSort_single)
  next
    case False
    let ?m = "hd (stableSort lt vs)"
    have sorted_ne: "stableSort lt vs \<noteq> []"
      using False by (simp add: stableSort_Nil_iff)
    have m_in: "?m \<in> set vs"
      using hd_in_set [OF sorted_ne] by (simp add: set_stableSort)
    have IH: "\<forall>u\<in>set vs. \<not> lt u ?m"
    proof (rule Cons.IH [OF _ _ False])
      fix p q assume "p \<in> set vs" "q \<in> set vs" "lt p q"
      then show "\<not> lt q p" using Cons.prems(1) [of p q] by fastforce
    next
      fix p q r assume "p \<in> set vs" "q \<in> set vs" "r \<in> set vs" "\<not> lt p q" "\<not> lt q r"
      then show "\<not> lt p r" using Cons.prems(2) [of p q r] by fastforce
    qed
    have hd_eq: "hd (stableSort lt (v # vs)) = (if lt ?m v then ?m else v)"
      using sorted_ne by (simp add: stableSort_Cons hd_insertBy)
    show ?thesis
    proof (cases "lt ?m v")
      case True
      have "\<not> lt v ?m"
        using Cons.prems(1) [of ?m v] m_in True by fastforce
      with IH show ?thesis unfolding hd_eq using True by simp
    next
      case nlt: False
      have "\<not> lt u v" if "u \<in> set vs" for u
        using Cons.prems(2) [of u ?m v] that m_in IH nlt by fastforce
      with irrefl show ?thesis unfolding hd_eq using nlt by simp
    qed
  qed
qed

lemma numLess_asym: "numLess p q \<Longrightarrow> \<not> numLess q p"
  by (cases p; cases q) auto

lemma numLess_ntrans: "\<not> numLess p q \<Longrightarrow> \<not> numLess q r \<Longrightarrow> \<not> numLess p r"
  by (cases p; cases q; cases r) auto

lemma jsLess_Some [simp]: "jsLess (Some p) (Some q) = numLess p q"
  by (simp add: jsLess_def)

lemma jsLess_None [simp]: "jsLess None q = False" "jsLess p None = False"
  by (simp_all add: jsLess_def split: option.splits)

lemma nextNode_least:
  assumes ne: "unvisitedNodes st \<noteq> []"
    and dom: "\<forall>v\<in>set (unvisitedNodes st). distances st v \<noteq> None"
  shows "\<forall>v\<in>set (unvisitedNodes st). \<not> jsLess (distances st v) (distances st (nextNode st))"
proof -
  let ?lt = "compareDistances (distances st)"
  have asym: "\<not> ?lt q p" if "p \<in> set (unvisitedNodes st)" "q \<in> set (unvisitedNodes st)" "?lt p q"
    for p q
  proof -
    from dom that obtain x y where "distances st p = Some x" "distances st q = Some y"
      by fastforce
    with that(3) show ?thesis
      by (simp add: compareDistances_def numLess_asym)
  qed
  have ntrans: "\<not> ?lt p r"
    if "p \<in> set (unvisitedNodes st)" "q \<in> set (unvisitedNodes st)"
       "r \<in> set (unvisitedNodes st)" "\<not> ?lt p q" "\<not> ?lt q r" for p q r
  proof -
    from dom that obtain x y z where
      "distances st p = Some x" "distances st q = Some y" "distances st r = Some z"
      by fastforce
    with that(4,5) show ?thesis
      using numLess_ntrans [of x y z] by (simp add: compareDistances_def)
  qed
  have "\<forall>v\<in>set (unvisitedNodes st). \<not> ?lt v (hd (stableSort ?lt (unvisitedNodes st)))"
    by (rule hd_stableSort_least [OF asym ntrans ne])
  then show ?thesis
    by (simp add: nextNode_def compareDistances_def)
qed

lemma inv_dom: "dijkstraInvariant a s st \<Longrightarrow>
    (distances st v \<noteq> None) = (v = s \<or> isValidAgentPosition a v)"
  unfolding dijkstraInvariant_def by blast

lemma inv_source: "dijkstraInvariant a s st \<Longrightarrow> distances st s = Some (Num 0)"
  unfolding dijkstraInvariant_def by blast

lemma inv_nonneg: "dijkstraInvariant a s st \<Longrightarrow> distances st v = Some (Num x) \<Longrightarrow> 0 \<le> x"
  unfolding dijkstraInvariant_def by blast

lemma inv_prev:
  "dijkstraInvariant a s st \<Longrightarrow> previousDistances st v = Some p \<Longrightarrow>
     v \<noteq> s \<and> v \<in> set (getNeighbours p (allowDiagonalsInPaths a)) \<and>
     (\<exists>x y. distances st p = Some (Num x) \<and> distances st v = Some (Num y) \<and> x + 1 \<le> y)"
  unfolding dijkstraInvariant_def by blast

lemma inv_has_prev:
  "dijkstraInvariant a s st \<Longrightarrow> distances st v = Some (Num x) \<Longrightarrow> v \<noteq> s \<Longrightarrow>
     previousDistances st v \<noteq> None"
  unfolding dijkstraInvariant_def by blast

lemma inv_unvisited:
  "dijkstraInvariant a s st \<Longrightarrow> v \<in> set (unvisitedNodes st) \<Longrightarrow> distances st v \<noteq> None"
  unfolding dijkstraInvariant_def by blast

subsection \<open>The initial state\<close>

lemma set_cells: "set (cells a) = {xy. areCoordinatesValid a xy}"
  by (auto simp: cells_def areCoordinatesValid_def)

lemma unvisited_foldl_addCell:
  "unvisitedNodes (foldl (addCell a s) st xs) =
     unvisitedNodes st @ filter (\<lambda>xy. isValidAgentPosition a xy \<and> s \<noteq> xy) xs"
  by (induction xs arbitrary: st) (simp_all add: addCell_def)

lemma distances_foldl_addCell:
  "distances (foldl (addCell a s) st xs) v =
     (if v \<in> set xs \<and> isValidAgentPosition a v \<and> s \<noteq> v then Some Infinity
      else distances st v)"
  by (induction xs arbitrary: st) (auto simp: addCell_def)

lemma previous_foldl_addCell:
  "previousDistances (foldl (addCell a s) st xs) = previousDistances st"
  by (induction xs arbitrary: st) (simp_all add: addCell_def)

lemma valid_in_cells: "isValidAgentPosition a v \<Longrightarrow> v \<in> set (cells a)"
  by (simp add: set_cells isValidAgentPosition_def)

lemma unvisited_initial:
  "unvisitedNodes (initialDijkstra a s) =
     s # filter (\<lambda>xy. isValidAgentPosition a xy \<and> s \<noteq> xy) (cells a)"
  by (simp add: initialDijkstra_def unvisited_foldl_addCell)

lemma distances_initial:
  "distances (initialDijkstra a s) v =
     (if v = s then Some (Num 0) else if isValidAgentPosition a v then Some Infinity else None)"
  using valid_in_cells [of a v]
  by (auto simp: initialDijkstra_def distances_foldl_addCell)

lemma previous_initial: "previousDistances (initialDijkstra a s) = Map.empty"
  by (simp add: initialDijkstra_def previous_foldl_addCell)

lemma inv_initial: "dijkstraInvariant a s (initialDijkstra a s)"
  unfolding dijkstraInvariant_def
  by (auto simp: distances_initial previous_initial unvisited_initial)

subsection \<open>One update of a neighbour\<close>

lemma updateDistance_cases:
  obtains (same) "updateDistance h c st n = st"
  | (improved) x dn where
      "distances st c = Some (Num x)" "distances st n = Some dn"
      "numLess (Num (x + (1 + h n))) dn"
      "updateDistance h c st n =
         st\<lparr>distances := (distances st)(n \<mapsto> Num (x + (1 + h n))),
            previousDistances := (previousDistances st)(n \<mapsto> c)\<rparr>"
proof (cases "distances st c")
  case None
  then have "updateDistance h c st n = st" by (simp add: updateDistance_alt)
  then show ?thesis by (rule same)
next
  case (Some dc)
  show ?thesis
  proof (cases dc)
    case Infinity
    with Some have "updateDistance h c st n = st"
      by (simp add: updateDistance_alt jsLess_def split: option.splits)
    then show ?thesis by (rule same)
  next
    case (Num x)
    show ?thesis
    proof (cases "jsLess (Some (Num (x + (1 + h n)))) (distances st n)")
      case False
      with Some Num have "updateDistance h c st n = st"
        by (simp add: updateDistance_alt)
      then show ?thesis by (rule same)
    next
      case True
      then obtain dn where dn: "distances st n = Some dn" "numLess (Num (x + (1 + h n))) dn"
        by (cases "distances st n") auto
      from Some Num True have
        "updateDistance h c st n =
           st\<lparr>distances := (distances st)(n \<mapsto> Num (x + (1 + h n))),
              previousDistances := (previousDistances st)(n \<mapsto> c)\<rparr>"
        by (simp add: updateDistance_alt)
      with Some Num dn show ?thesis by (intro improved) auto
    qed
  qed
qed

lemma inv_updateDistance:
  assumes h: "\<forall>xy. 0 \<le> h xy"
    and inv: "dijkstraInvariant a s st"
    and n: "n \<in> set (getNeighbours c (allowDiagonalsInPaths a))"
  shows "dijkstraInvariant a s (updateDistance h c st n)"
proof (cases rule: updateDistance_cases [where h=h and c=c and st=st and n=n])
  case same
  with inv show ?thesis by simp
next
  case (improved x dn)
  let ?z = "x + (1 + h n)"
  let ?st = "updateDistance h c st n"
  have x0: "0 \<le> x" using inv improved(1) by (rule inv_nonneg)
  have hn: "0 \<le> h n" using h by blast
  have z1: "1 \<le> ?z" using x0 hn by simp
  have ns: "n \<noteq> s"
  proof
    assume "n = s"
    with inv_source [OF inv] improved(2) have "dn = Num 0" by simp
    with improved(3) z1 show False by simp
  qed
  have nc: "n \<noteq> c"
  proof
    assume "n = c"
    with improved(1,2) have "dn = Num x" by simp
    with improved(3) hn show False by simp
  qed
  have dist: "distances ?st v = (if v = n then Some (Num ?z) else distances st v)" for v
    by (simp add: improved(4))
  have prev: "previousDistances ?st v = (if v = n then Some c else previousDistances st v)" for v
    by (simp add: improved(4))
  have unv: "unvisitedNodes ?st = unvisitedNodes st"
    by (simp add: improved(4))
  have below: "?z < y" if "distances st n = Some (Num y)" for y
    using that improved(2,3) by simp
  have c1: "(distances ?st v \<noteq> None) = (v = s \<or> isValidAgentPosition a v)" for v
    using inv_dom [OF inv, of v] improved(2) by (auto simp: dist)
  have c2: "distances ?st s = Some (Num 0)"
    using inv_source [OF inv] ns by (simp add: dist)
  have c3: "0 \<le> y" if "distances ?st v = Some (Num y)" for v y
    using that inv_nonneg [OF inv, of v y] z1 by (auto simp: dist split: if_splits)
  have c4: "v \<noteq> s \<and> v \<in> set (getNeighbours p (allowDiagonalsInPaths a)) \<and>
         (\<exists>x y. distances ?st p = Some (Num x) \<and> distances ?st v = Some (Num y) \<and> x + 1 \<le> y)"
    if pv: "previousDistances ?st v = Some p" for v p
  proof (cases "v = n")
    case True
    with pv have "p = c" by (simp add: prev)
    with True ns n nc improved(1) hn show ?thesis by (simp add: dist)
  next
    case False
    with pv have old: "previousDistances st v = Some p" by (simp add: prev)
    from inv_prev [OF inv old] obtain xp yv where
      o: "v \<noteq> s" "v \<in> set (getNeighbours p (allowDiagonalsInPaths a))"
         "distances st p = Some (Num xp)" "distances st v = Some (Num yv)" "xp + 1 \<le> yv"
      by blast
    show ?thesis
    proof (cases "p = n")
      case True
      with o(3) below have "?z < xp" by simp
      with o True False show ?thesis by (simp add: dist)
    next
      case pn: False
      with o False show ?thesis by (simp add: dist)
    qed
  qed
  have c5: "previousDistances ?st v \<noteq> None" if "distances ?st v = Some (Num y)" "v \<noteq> s" for v y
    using that inv_has_prev [OF inv, of v y] by (auto simp: dist prev split: if_splits)
  have c6: "distances ?st v \<noteq> None" if "v \<in> set (unvisitedNodes ?st)" for v
    using that inv_unvisited [OF inv, of v] by (auto simp: dist unv)
  show ?thesis
    unfolding dijkstraInvariant_def
    using c1 c2 c3 c4 c5 c6 by blast
qed

lemma inv_foldl_updateDistance:
  assumes h: "\<forall>xy. 0 \<le> h xy"
  shows "dijkstraInvariant a s st \<Longrightarrow> set ns \<subseteq> set (getNeighbours c (allowDiagonalsInPaths a)) \<Longrightarrow>
     dijkstraInvariant a s (foldl (updateDistance h c) st ns)"
proof (induction ns arbitrary: st)
  case Nil
  then show ?case by simp
next
  case (Cons n ns)
  from Cons.prems have "dijkstraInvariant a s (updateDistance h c st n)"
    by (intro inv_updateDistance [OF h]) auto
  moreover from Cons.prems(2) have "set ns \<subseteq> set (getNeighbours c (allowDiagonalsInPaths a))"
    by simp
  ultimately have "dijkstraInvariant a s (foldl (updateDistance h c) (updateDistance h c st n) ns)"
    by (rule Cons.IH)
  then show ?case by simp
qed

lemma inv_remove:
  "dijkstraInvariant a s st \<Longrightarrow>
     dijkstraInvariant a s (st\<lparr>unvisitedNodes := removeAll c (unvisitedNodes st)\<rparr>)"
  unfolding dijkstraInvariant_def by simp

lemma inv_visit:
  assumes "\<forall>xy. 0 \<le> h xy" "dijkstraInvariant a s st"
  shows "dijkstraInvariant a s (visit a h st)"
  unfolding visit_def Let_def
  by (intro inv_foldl_updateDistance inv_remove assms) simp

subsection \<open>A rule for the outer loop\<close>

lemma dijkstraLoop_rule:
  assumes start: "I st"
    and step: "\<And>st. I st \<Longrightarrow> unvisitedNodes st \<noteq> [] \<Longrightarrow> nextNode st \<noteq> d \<Longrightarrow> I (visit a h st)"
    and empty: "\<And>st. I st \<Longrightarrow> unvisitedNodes st = [] \<Longrightarrow> Q (Some [])"
    and found: "\<And>st. I st \<Longrightarrow> unvisitedNodes st \<noteq> [] \<Longrightarrow> nextNode st = d \<Longrightarrow>
                 Q (collectPath (previousDistances st) (previousDistances st d) [])"
  shows "Q (dijkstraLoop a d h st)"
  using assms
proof (induction a d h st rule: dijkstraLoop.induct)
  case (1 a destination getHeuristic st)
  have eq: "dijkstraLoop a destination getHeuristic st =
     (if unvisitedNodes st = [] then Some []
      else if nextNode st = destination
      then collectPath (previousDistances st) (previousDistances st (nextNode st)) []
      else dijkstraLoop a destination getHeuristic (visit a getHeuristic st))"
    by (rule dijkstraLoop.simps)
  note I = "1.prems"(1)
  show ?case
  proof (cases "unvisitedNodes st = []")
    case True
    have "dijkstraLoop a destination getHeuristic st = Some []"
      using True by (subst eq) simp
    with "1.prems"(3) [OF I True] show ?thesis by simp
  next
    case False
    show ?thesis
    proof (cases "nextNode st = destination")
      case True
      have "dijkstraLoop a destination getHeuristic st =
          collectPath (previousDistances st) (previousDistances st destination) []"
        using False True by (subst eq) simp
      with "1.prems"(4) [OF I False True] show ?thesis by simp
    next
      case ne: False
      have "I (visit a getHeuristic st)"
        by (rule "1.prems"(2) [OF I False ne])
      from "1.IH" [OF False ne this "1.prems"(2,3,4)]
      have "Q (dijkstraLoop a destination getHeuristic (visit a getHeuristic st))" .
      moreover have "dijkstraLoop a destination getHeuristic st =
          dijkstraLoop a destination getHeuristic (visit a getHeuristic st)"
        using False ne by (subst eq) simp
      ultimately show ?thesis by simp
    qed
  qed
qed

subsection \<open>Collecting the path\<close>

lemma collectPath_None: "collectPath prevs None nav = Some nav"
  by (subst collectPath.simps) simp

lemma collectPath_Some:
  "collectPath prevs (Some p) nav =
     (if has prevs p then collectPath prevs (prevs p) (nav @ [p]) else Some nav)"
  by (subst collectPath.simps) simp

lemma collectPath_follows:
  assumes inv: "dijkstraInvariant a s st"
  shows "distances st p = Some (Num x) \<Longrightarrow>
     \<exists>r. collectPath (previousDistances st) (Some p) nav = Some (nav @ r) \<and>
         follows (previousDistances st) p r s"
proof (induction "nat \<lfloor>x\<rfloor>" arbitrary: p x nav rule: less_induct)
  case less
  show ?case
  proof (cases "previousDistances st p")
    case None
    with inv_has_prev [OF inv less.prems] have "p = s" by blast
    with None show ?thesis
      by (simp add: collectPath_Some has_def)
  next
    case (Some q)
    from inv_prev [OF inv Some] less.prems obtain x' where
      q: "distances st q = Some (Num x')" "x' + 1 \<le> x"
      by auto
    have "0 \<le> x'" using inv q(1) by (rule inv_nonneg)
    with q(2) have "nat \<lfloor>x'\<rfloor> < nat \<lfloor>x\<rfloor>"
      by linarith
    from less.hyps [OF this q(1), of "nav @ [p]"] obtain r where
      r: "collectPath (previousDistances st) (Some q) (nav @ [p]) = Some ((nav @ [p]) @ r)"
         "follows (previousDistances st) q r s"
      by blast
    have "collectPath (previousDistances st) (Some p) nav = Some (nav @ (p # r))"
      using Some r(1) by (simp add: collectPath_Some has_def)
    moreover have "follows (previousDistances st) p (p # r) s"
      using Some r(2) by simp
    ultimately show ?thesis by blast
  qed
qed

lemma follows_members:
  assumes inv: "dijkstraInvariant a s st"
  shows "follows (previousDistances st) p r s \<Longrightarrow> v \<in> set r \<Longrightarrow>
     v \<noteq> s \<and> isValidAgentPosition a v"
proof (induction r arbitrary: p)
  case Nil
  then show ?case by simp
next
  case (Cons q r)
  from Cons.prems(1) obtain p' where
    p': "q = p" "previousDistances st p = Some p'" "follows (previousDistances st) p' r s"
    by auto
  show ?case
  proof (cases "v = q")
    case True
    from inv_prev [OF inv p'(2)] have "p \<noteq> s" "distances st p \<noteq> None" by auto
    with inv_dom [OF inv, of p] True p'(1) show ?thesis by simp
  next
    case False
    with Cons.prems(2) have "v \<in> set r" by simp
    from Cons.IH [OF p'(3) this] show ?thesis .
  qed
qed

text \<open>
  C2. For a heuristic that is never negative (the default heuristic is constantly 0),
  \<open>findDijkstraPath\<close> returns, and every coordinate of the returned path is a valid agent
  position of the area that was searched: inside the grid and not a wall.
\<close>

theorem findDijkstraPath_avoids_walls:
  assumes h: "\<forall>xy. 0 \<le> h xy"
  shows "\<exists>r. findDijkstraPath a s d h = Some r \<and> (\<forall>xy\<in>set r. isValidAgentPosition a xy)"
  unfolding findDijkstraPath_def
proof (rule dijkstraLoop_rule [where I = "dijkstraInvariant a s"])
  show "dijkstraInvariant a s (initialDijkstra a s)" by (rule inv_initial)
next
  fix st assume "dijkstraInvariant a s st"
  then show "dijkstraInvariant a s (visit a h st)" by (rule inv_visit [OF h])
next
  show "\<exists>r. Some [] = Some r \<and> (\<forall>xy\<in>set r. isValidAgentPosition a xy)" by simp
next
  fix st assume inv: "dijkstraInvariant a s st"
  show "\<exists>r. collectPath (previousDistances st) (previousDistances st d) [] = Some r \<and>
            (\<forall>xy\<in>set r. isValidAgentPosition a xy)"
  proof (cases "previousDistances st d")
    case None
    then show ?thesis by (simp add: collectPath_None)
  next
    case (Some p)
    from inv_prev [OF inv Some] obtain x where "distances st p = Some (Num x)" by blast
    from collectPath_follows [OF inv this, of "[]"] obtain r where
      r: "collectPath (previousDistances st) (Some p) [] = Some r"
         "follows (previousDistances st) p r s"
      by auto
    from follows_members [OF inv r(2)] have "\<forall>xy\<in>set r. isValidAgentPosition a xy" by blast
    with r(1) Some show ?thesis by simp
  qed
qed

theorem findDijkstraPath_avoids_walls_witness:
  "(\<forall>xy. 0 \<le> (constantly 0 :: coordinates \<Rightarrow> real) xy) \<and>
   (\<exists>r. findDijkstraPath pocket (1, 1) (3, 1) (constantly 0) = Some r \<and>
        (\<forall>xy\<in>set r. isValidAgentPosition pocket xy))"
proof -
  have h: "\<forall>xy. 0 \<le> (constantly 0 :: coordinates \<Rightarrow> real) xy"
    by (simp add: constantly_def)
  from h findDijkstraPath_avoids_walls [OF h] show ?thesis by blast
qed

subsection \<open>What a round of updates does to the maps\<close>

lemma numLess_irrefl: "\<not> numLess p p"
  by (cases p) auto

lemma distances_updateDistance_le:
  assumes "distances st v = Some dv"
  shows "\<exists>dv'. distances (updateDistance h c st n) v = Some dv' \<and> \<not> numLess dv dv'"
proof (cases rule: updateDistance_cases [where h=h and c=c and st=st and n=n])
  case same
  with assms show ?thesis by (simp add: numLess_irrefl)
next
  case (improved x dn)
  show ?thesis
  proof (cases "v = n")
    case True
    with assms improved(2) have "dn = dv" by simp
    with improved(3) have "\<not> numLess dv (Num (x + (1 + h n)))"
      by (simp add: numLess_asym)
    with True show ?thesis by (simp add: improved(4))
  next
    case False
    with assms show ?thesis by (simp add: improved(4) numLess_irrefl)
  qed
qed

lemma distances_foldl_le:
  "distances st v = Some dv \<Longrightarrow>
     \<exists>dv'. distances (foldl (updateDistance h c) st ns) v = Some dv' \<and> \<not> numLess dv dv'"
proof (induction ns arbitrary: st dv)
  case Nil
  then show ?case by (simp add: numLess_irrefl)
next
  case (Cons n ns)
  from distances_updateDistance_le [OF Cons.prems, of h c n] obtain d1 where
    d1: "distances (updateDistance h c st n) v = Some d1" "\<not> numLess dv d1"
    by blast
  from Cons.IH [OF d1(1)] obtain d2 where
    d2: "distances (foldl (updateDistance h c) (updateDistance h c st n) ns) v = Some d2"
        "\<not> numLess d1 d2"
    by blast
  from numLess_ntrans [OF d1(2) d2(2)] d2(1) show ?case by simp
qed

lemma distances_current_updateDistance:
  assumes h: "\<forall>xy. 0 \<le> h xy"
  shows "distances (updateDistance h c st n) c = distances st c"
proof (cases rule: updateDistance_cases [where h=h and c=c and st=st and n=n])
  case same
  then show ?thesis by simp
next
  case (improved x dn)
  have hn: "0 \<le> h n" using h by blast
  have "n \<noteq> c"
  proof
    assume "n = c"
    with improved(1,2) have "dn = Num x" by simp
    with improved(3) hn show False by simp
  qed
  then show ?thesis by (simp add: improved(4))
qed

lemma distances_current_foldl:
  assumes h: "\<forall>xy. 0 \<le> h xy"
  shows "distances (foldl (updateDistance h c) st ns) c = distances st c"
  by (induction ns arbitrary: st) (simp_all add: distances_current_updateDistance [OF h])

lemma relaxed_updateDistance:
  assumes "distances st c = Some (Num x)" "distances st n = Some dn"
  shows "\<exists>dn'. distances (updateDistance h c st n) n = Some dn' \<and>
           \<not> numLess (Num (x + (1 + h n))) dn'"
  using assms by (simp add: updateDistance_alt Let_def)

lemma relaxed_foldl:
  assumes h: "\<forall>xy. 0 \<le> h xy"
  shows "distances st c = Some (Num x) \<Longrightarrow> n \<in> set ns \<Longrightarrow> distances st n = Some dn \<Longrightarrow>
     \<exists>dn'. distances (foldl (updateDistance h c) st ns) n = Some dn' \<and>
          \<not> numLess (Num (x + (1 + h n))) dn'"
proof (induction ns arbitrary: st dn)
  case Nil
  then show ?case by simp
next
  case (Cons m ns)
  let ?st1 = "updateDistance h c st m"
  have c1: "distances ?st1 c = Some (Num x)"
    using Cons.prems(1) by (simp add: distances_current_updateDistance [OF h])
  from distances_updateDistance_le [OF Cons.prems(3), of h c m] obtain d1 where
    d1: "distances ?st1 n = Some d1"
    by blast
  show ?case
  proof (cases "n \<in> set ns")
    case True
    from Cons.IH [OF c1 True d1] show ?thesis by simp
  next
    case False
    with Cons.prems(2) have nm: "n = m" by simp
    from relaxed_updateDistance [OF Cons.prems(1) Cons.prems(3) [unfolded nm], of h]
    obtain d1' where d1': "distances ?st1 m = Some d1'" "\<not> numLess (Num (x + (1 + h m))) d1'"
      by blast
    from distances_foldl_le [OF d1'(1), of h c ns] obtain d2 where
      d2: "distances (foldl (updateDistance h c) ?st1 ns) m = Some d2" "\<not> numLess d1' d2"
      by blast
    from numLess_ntrans [OF d1'(2) d2(2)] d2(1) nm show ?thesis by simp
  qed
qed

lemma previous_updateDistance:
  "previousDistances (updateDistance h c st n) v = Some p \<Longrightarrow>
     previousDistances st v = Some p \<or>
     (p = c \<and> v = n \<and> (\<exists>x dn. distances st c = Some (Num x) \<and> distances st n = Some dn \<and>
         numLess (Num (x + (1 + h n))) dn))"
  by (cases rule: updateDistance_cases [where h=h and c=c and st=st and n=n])
     (auto split: if_splits)

lemma distances_visit_current:
  assumes h: "\<forall>xy. 0 \<le> h xy"
  shows "distances (visit a h st) (nextNode st) = distances st (nextNode st)"
  by (simp add: visit_def Let_def distances_current_foldl [OF h])

lemma distances_visit_le:
  "distances st v = Some dv \<Longrightarrow>
     \<exists>dv'. distances (visit a h st) v = Some dv' \<and> \<not> numLess dv dv'"
  unfolding visit_def Let_def
  by (rule distances_foldl_le) simp

lemma relaxed_visit:
  assumes h: "\<forall>xy. 0 \<le> h xy"
    and "distances st (nextNode st) = Some (Num x)"
    and "n \<in> set (getNeighbours (nextNode st) (allowDiagonalsInPaths a))"
    and "distances st n = Some dn"
  shows "\<exists>dn'. distances (visit a h st) n = Some dn' \<and> \<not> numLess (Num (x + (1 + h n))) dn'"
  unfolding visit_def Let_def
  by (rule relaxed_foldl [OF h]) (simp_all add: assms)

lemma nextNode_source:
  assumes inv: "dijkstraInvariant a s st" and s: "s \<in> set (unvisitedNodes st)"
  shows "nextNode st = s"
proof (rule ccontr)
  assume ne: "nextNode st \<noteq> s"
  let ?m = "nextNode st"
  have nonempty: "unvisitedNodes st \<noteq> []" using s by auto
  have dom: "\<forall>v\<in>set (unvisitedNodes st). distances st v \<noteq> None"
    using inv_unvisited [OF inv] by blast
  from nextNode_in [OF nonempty] inv_unvisited [OF inv] obtain dm where
    dm: "distances st ?m = Some dm"
    by blast
  from nextNode_least [OF nonempty dom] s have "\<not> jsLess (distances st s) (distances st ?m)"
    by blast
  with inv_source [OF inv] dm have "\<not> numLess (Num 0) dm" by simp
  then obtain y where y: "dm = Num y" "y \<le> 0"
    by (cases dm) auto
  from inv_has_prev [OF inv dm [unfolded y(1)] ne] obtain p where
    "previousDistances st ?m = Some p"
    by blast
  from inv_prev [OF inv this] dm y(1) obtain x where
    "distances st p = Some (Num x)" "x + 1 \<le> y"
    by auto
  with inv_nonneg [OF inv this(1)] y(2) show False by simp
qed

lemma foldl_updateDistance_rule:
  "P st \<Longrightarrow> (\<And>st n. P st \<Longrightarrow> n \<in> set ns \<Longrightarrow> P (updateDistance h c st n)) \<Longrightarrow>
     P (foldl (updateDistance h c) st ns)"
proof (induction ns arbitrary: st)
  case Nil
  then show ?case by simp
next
  case (Cons n ns)
  have "P (updateDistance h c st n)"
    by (rule Cons.prems(2) [OF Cons.prems(1)]) simp
  then have "P (foldl (updateDistance h c) (updateDistance h c st n) ns)"
  proof (rule Cons.IH)
    fix st' m assume "P st'" "m \<in> set ns"
    then show "P (updateDistance h c st' m)"
      using Cons.prems(2) [of st' m] by simp
  qed
  then show ?case by simp
qed

lemma previous_source: "dijkstraInvariant a s st \<Longrightarrow> previousDistances st s = None"
  using inv_prev [of a s st s] by (cases "previousDistances st s") auto

lemma near_updateDistance:
  assumes h: "\<forall>xy. 0 \<le> h xy"
    and near: "nearInvariant a s d h (c \<noteq> s) st"
    and n: "n \<in> set (getNeighbours c (allowDiagonalsInPaths a))"
  shows "nearInvariant a s d h (c \<noteq> s) (updateDistance h c st n)"
proof -
  let ?st = "updateDistance h c st n"
  from near have inv: "dijkstraInvariant a s st"
    and pd: "previousDistances st d = None \<or> previousDistances st d = Some s"
    and bd: "c \<noteq> s \<Longrightarrow> distances st d = Some dd \<Longrightarrow> \<not> numLess (Num (1 + h d)) dd" for dd
    by (auto simp: nearInvariant_def)
  have inv': "dijkstraInvariant a s ?st"
    by (rule inv_updateDistance [OF h inv n])
  have bd': "\<not> numLess (Num (1 + h d)) dd" if "c \<noteq> s" "distances ?st d = Some dd" for dd
  proof -
    from inv_dom [OF inv', of d] inv_dom [OF inv, of d] that(2) obtain d0 where
      d0: "distances st d = Some d0"
      by auto
    from distances_updateDistance_le [OF d0, of h c n] that(2) have "\<not> numLess d0 dd"
      by simp
    from numLess_ntrans [OF bd [OF that(1) d0] this] show ?thesis .
  qed
  have pd': "previousDistances ?st d = None \<or> previousDistances ?st d = Some s"
  proof (cases "previousDistances ?st d")
    case None
    then show ?thesis by simp
  next
    case (Some p)
    from previous_updateDistance [OF Some] show ?thesis
    proof
      assume "previousDistances st d = Some p"
      with pd Some show ?thesis by simp
    next
      assume "p = c \<and> d = n \<and> (\<exists>x dn. distances st c = Some (Num x) \<and>
                distances st n = Some dn \<and> numLess (Num (x + (1 + h n))) dn)"
      then obtain x dn where
        *: "p = c" "d = n" "distances st c = Some (Num x)" "distances st d = Some dn"
           "numLess (Num (x + (1 + h d))) dn"
        by auto
      have x0: "0 \<le> x" using inv *(3) by (rule inv_nonneg)
      show ?thesis
      proof (cases "c = s")
        case True
        with Some *(1) show ?thesis by simp
      next
        case False
        from bd [OF False *(4)] have "\<not> numLess (Num (1 + h d)) dn" .
        with *(5) x0 have False by (cases dn) auto
        then show ?thesis ..
      qed
    qed
  qed
  from inv' pd' bd' show ?thesis by (auto simp: nearInvariant_def)
qed

lemma near_visit:
  assumes h: "\<forall>xy. 0 \<le> h xy"
    and adj: "d \<in> set (getNeighbours s (allowDiagonalsInPaths a))"
    and near: "nearInvariant a s d h (s \<notin> set (unvisitedNodes st)) st"
    and nonempty: "unvisitedNodes st \<noteq> []"
  shows "nearInvariant a s d h (s \<notin> set (unvisitedNodes (visit a h st))) (visit a h st)"
proof -
  let ?c = "nextNode st"
  let ?st0 = "st\<lparr>unvisitedNodes := removeAll ?c (unvisitedNodes st)\<rparr>"
  from near have inv: "dijkstraInvariant a s st"
    by (simp add: nearInvariant_def)
  have cs: "?c \<noteq> s \<longleftrightarrow> s \<notin> set (unvisitedNodes st)"
    using nextNode_source [OF inv] nextNode_in [OF nonempty] by auto
  have start: "nearInvariant a s d h (?c \<noteq> s) ?st0"
    using near inv_remove [OF inv, of ?c] unfolding cs by (simp add: nearInvariant_def)
  have "nearInvariant a s d h (?c \<noteq> s)
          (foldl (updateDistance h ?c) ?st0 (getNeighbours ?c (allowDiagonalsInPaths a)))"
    by (rule foldl_updateDistance_rule
          [where P = "nearInvariant a s d h (?c \<noteq> s)", OF start])
       (rule near_updateDistance [OF h])
  then have mid: "nearInvariant a s d h (?c \<noteq> s) (visit a h st)"
    by (simp add: visit_def Let_def)
  then have inv': "dijkstraInvariant a s (visit a h st)"
    by (simp add: nearInvariant_def)
  have "\<not> numLess (Num (1 + h d)) dd" if "distances (visit a h st) d = Some dd" for dd
  proof (cases "?c = s")
    case False
    with mid that show ?thesis by (simp add: nearInvariant_def)
  next
    case True
    from inv_dom [OF inv', of d] inv_dom [OF inv, of d] that obtain d0 where
      d0: "distances st d = Some d0"
      by auto
    have "distances st ?c = Some (Num 0)"
      using inv_source [OF inv] True by simp
    from relaxed_visit [OF h this _ d0, of a] adj True that show ?thesis by simp
  qed
  with mid show ?thesis by (simp add: nearInvariant_def)
qed

lemma collectPath_source:
  "dijkstraInvariant a s st \<Longrightarrow> collectPath (previousDistances st) (Some s) nav = Some nav"
  by (simp add: collectPath_Some has_def previous_source)

lemma near_empty:
  assumes h: "\<forall>xy. 0 \<le> h xy"
    and near: "d \<in> set (getNeighbours s (allowDiagonalsInPaths a)) \<or> d = s"
  shows "findDijkstraPath a s d h = Some []"
proof (cases "d = s")
  case True
  have inv: "dijkstraInvariant a s (initialDijkstra a s)" by (rule inv_initial)
  have "s \<in> set (unvisitedNodes (initialDijkstra a s))"
    by (simp add: unvisited_initial)
  from nextNode_source [OF inv this] True show ?thesis
    unfolding findDijkstraPath_def
    by (subst dijkstraLoop.simps)
       (simp add: unvisited_initial previous_initial collectPath_None)
next
  case False
  with near have adj: "d \<in> set (getNeighbours s (allowDiagonalsInPaths a))" by simp
  show ?thesis
    unfolding findDijkstraPath_def
  proof (rule dijkstraLoop_rule
      [where I = "\<lambda>st. nearInvariant a s d h (s \<notin> set (unvisitedNodes st)) st"])
    show "nearInvariant a s d h (s \<notin> set (unvisitedNodes (initialDijkstra a s)))
            (initialDijkstra a s)"
      by (simp add: nearInvariant_def inv_initial previous_initial unvisited_initial)
  next
    fix st
    assume "nearInvariant a s d h (s \<notin> set (unvisitedNodes st)) st" "unvisitedNodes st \<noteq> []"
    then show "nearInvariant a s d h (s \<notin> set (unvisitedNodes (visit a h st))) (visit a h st)"
      by (rule near_visit [OF h adj])
  next
    show "Some [] = Some ([] :: coordinates list)" by simp
  next
    fix st
    assume "nearInvariant a s d h (s \<notin> set (unvisitedNodes st)) st"
    then have "dijkstraInvariant a s st"
      "previousDistances st d = None \<or> previousDistances st d = Some s"
      by (simp_all add: nearInvariant_def)
    then show "collectPath (previousDistances st) (previousDistances st d) [] = Some []"
      by (auto simp: collectPath_None collectPath_source)
  qed
qed

text \<open>
  C9. For a heuristic that is never negative, when the destination is a neighbour of the
  source (under the area's diagonal flag; the four orthogonal neighbours always are) or is
  the source itself, \<open>findDijkstraPath\<close> returns the empty path.
\<close>

theorem findDijkstraPath_adjacent_empty:
  assumes "\<forall>xy. 0 \<le> h xy"
    and "d \<in> set (getNeighbours s (allowDiagonalsInPaths a)) \<or> d = s"
  shows "findDijkstraPath a s d h = Some []"
  using assms by (rule near_empty)

theorem findDijkstraPath_adjacent_empty_witness:
  "(\<forall>xy. 0 \<le> (constantly 0 :: coordinates \<Rightarrow> real) xy) \<and>
   ((1, 0) \<in> set (getNeighbours (0, 0) (allowDiagonalsInPaths corridor)) \<or>
    (1, 0) = ((0, 0) :: coordinates)) \<and>
   findDijkstraPath corridor (0, 0) (1, 0) (constantly 0) = Some []"
proof -
  have h: "\<forall>xy. 0 \<le> (constantly 0 :: coordinates \<Rightarrow> real) xy"
    by (simp add: constantly_def)
  have n: "(1, 0) \<in> set (getNeighbours (0, 0) (allowDiagonalsInPaths corridor)) \<or>
           (1, 0) = ((0, 0) :: coordinates)"
    by (simp add: getNeighbours_def)
  from h n findDijkstraPath_adjacent_empty [OF h n] show ?thesis by blast
qed

section \<open>Dijkstra: the order of the returned path\<close>

lemma getNeighbours_iff:
  "(x', y') \<in> set (getNeighbours (x, y) g) \<longleftrightarrow>
     (\<bar>x' - x\<bar> + \<bar>y' - y\<bar> = 1 \<or> g \<and> \<bar>x' - x\<bar> = 1 \<and> \<bar>y' - y\<bar> = 1)"
proof -
  have orth: "(x', y') \<in> set [(x, y - 1), (x - 1, y), (x + 1, y), (x, y + 1)] \<longleftrightarrow>
      \<bar>x' - x\<bar> + \<bar>y' - y\<bar> = 1"
    by (simp only: list.set insert_iff empty_iff prod.inject) arith
  have diag: "(x', y') \<in> set [(x - 1, y - 1), (x + 1, y - 1), (x - 1, y + 1), (x + 1, y + 1)] \<longleftrightarrow>
      \<bar>x' - x\<bar> = 1 \<and> \<bar>y' - y\<bar> = 1"
    by (simp only: list.set insert_iff empty_iff prod.inject) arith
  show ?thesis
    unfolding getNeighbours_def prod.case set_append Un_iff orth
    using diag by (cases g) simp_all
qed

lemma getNeighbours_sym:
  "v \<in> set (getNeighbours u g) \<Longrightarrow> u \<in> set (getNeighbours v g)"
proof -
  obtain x y x' y' where uv: "u = (x, y)" "v = (x', y')" by (cases u; cases v) blast
  have "\<bar>x' - x\<bar> = \<bar>x - x'\<bar>" "\<bar>y' - y\<bar> = \<bar>y - y'\<bar>" by simp_all
  then show "v \<in> set (getNeighbours u g) \<Longrightarrow> u \<in> set (getNeighbours v g)"
    unfolding uv getNeighbours_iff by simp
qed

lemma route_stays_visited:
  assumes inv: "dijkstraInvariant a s st"
    and closed: "\<And>u v. distances st u \<noteq> None \<Longrightarrow> u \<notin> set (unvisitedNodes st) \<Longrightarrow>
        v \<in> set (getNeighbours u (allowDiagonalsInPaths a)) \<Longrightarrow> distances st v \<noteq> Some Infinity"
    and allInf: "\<And>v. v \<in> set (unvisitedNodes st) \<Longrightarrow> distances st v = Some Infinity"
  shows "steps a r \<Longrightarrow> \<forall>xy\<in>set r. isValidAgentPosition a xy \<Longrightarrow> r \<noteq> [] \<Longrightarrow>
     hd r \<notin> set (unvisitedNodes st) \<Longrightarrow> last r \<notin> set (unvisitedNodes st)"
proof (induction r)
  case Nil
  then show ?case by simp
next
  case outer: (Cons u r)
  show ?case
  proof (cases r)
    case Nil
    with outer.prems(4) show ?thesis by simp
  next
    case (Cons v rest)
    have "distances st u \<noteq> None"
      using inv_dom [OF inv, of u] outer.prems(2) by simp
    moreover have "u \<notin> set (unvisitedNodes st)" using outer.prems(4) by simp
    moreover have "v \<in> set (getNeighbours u (allowDiagonalsInPaths a))"
      using outer.prems(1) Cons by simp
    ultimately have "distances st v \<noteq> Some Infinity" by (rule closed)
    with allInf [of v] have "v \<notin> set (unvisitedNodes st)" by blast
    then have "hd r \<notin> set (unvisitedNodes st)" using Cons by simp
    moreover have "steps a r" using outer.prems(1) Cons by simp
    moreover have "\<forall>xy\<in>set r. isValidAgentPosition a xy" using outer.prems(2) by simp
    moreover have "r \<noteq> []" using Cons by simp
    ultimately have "last r \<notin> set (unvisitedNodes st)"
      using outer.IH by blast
    then show ?thesis using Cons by simp
  qed
qed


lemma le_Num_finite: "\<not> numLess (Num y) dv \<Longrightarrow> \<exists>x. dv = Num x"
  by (cases dv) auto

lemma next_finite:
  assumes ri: "routeInvariant a s d st"
    and route: "isRoute a r s d"
    and nonempty: "unvisitedNodes st \<noteq> []"
  shows "\<exists>x. distances st (nextNode st) = Some (Num x)"
proof (rule ccontr)
  assume contra: "\<not> ?thesis"
  let ?c = "nextNode st"
  from ri have inv: "dijkstraInvariant a s st" and d: "d \<in> set (unvisitedNodes st)"
    by (simp_all add: routeInvariant_def)
  have closed: "distances st v \<noteq> Some Infinity"
    if "distances st u \<noteq> None" "u \<notin> set (unvisitedNodes st)"
       "v \<in> set (getNeighbours u (allowDiagonalsInPaths a))" for u v
    using ri that unfolding routeInvariant_def by blast
  have dom: "\<forall>v\<in>set (unvisitedNodes st). distances st v \<noteq> None"
    using inv_unvisited [OF inv] by blast
  from nextNode_in [OF nonempty] dom contra have c: "distances st ?c = Some Infinity"
    by (metis number.exhaust option.exhaust)
  have allInf: "distances st v = Some Infinity" if "v \<in> set (unvisitedNodes st)" for v
  proof -
    from dom that obtain dv where dv: "distances st v = Some dv" by blast
    from nextNode_least [OF nonempty dom] that c dv have "\<not> numLess dv Infinity"
      by auto
    then have "dv = Infinity" by (cases dv) auto
    with dv show ?thesis by simp
  qed
  have s_visited: "s \<notin> set (unvisitedNodes st)"
    using allInf [of s] inv_source [OF inv] by auto
  from route have r: "steps a r" "\<forall>xy\<in>set r. isValidAgentPosition a xy" "r \<noteq> []"
    "hd r = s" "last r = d"
    by (simp_all add: isRoute_def)
  have "last r \<notin> set (unvisitedNodes st)"
  proof (rule route_stays_visited [OF inv _ _ r(1,2,3)])
    fix u v
    assume "distances st u \<noteq> None" "u \<notin> set (unvisitedNodes st)"
      "v \<in> set (getNeighbours u (allowDiagonalsInPaths a))"
    then show "distances st v \<noteq> Some Infinity" by (rule closed)
  next
    fix v assume "v \<in> set (unvisitedNodes st)"
    then show "distances st v = Some Infinity" by (rule allInf)
  next
    show "hd r \<notin> set (unvisitedNodes st)" using s_visited r(4) by simp
  qed
  then have "d \<notin> set (unvisitedNodes st)" using r(5) by simp
  with d show False by simp
qed

lemma route_visit:
  assumes h: "\<forall>xy. 0 \<le> h xy"
    and ri: "routeInvariant a s d st"
    and route: "isRoute a r s d"
    and nonempty: "unvisitedNodes st \<noteq> []"
    and ne: "nextNode st \<noteq> d"
  shows "routeInvariant a s d (visit a h st)"
proof -
  let ?c = "nextNode st"
  let ?st = "visit a h st"
  from ri have inv: "dijkstraInvariant a s st" and d: "d \<in> set (unvisitedNodes st)"
    by (simp_all add: routeInvariant_def)
  have inv': "dijkstraInvariant a s ?st" by (rule inv_visit [OF h inv])
  have unv: "set (unvisitedNodes ?st) = set (unvisitedNodes st) - {?c}"
    by (simp add: unvisited_visit)
  have d': "d \<in> set (unvisitedNodes ?st)" using d ne by (simp add: unv)
  from next_finite [OF ri route nonempty] obtain x where x: "distances st ?c = Some (Num x)"
    by blast
  have fin: "distances ?st v \<noteq> Some Infinity" if "distances st v \<noteq> None" "distances st v \<noteq> Some Infinity"
    for v
  proof -
    from that obtain y where y: "distances st v = Some (Num y)"
      by (metis number.exhaust option.exhaust)
    from distances_visit_le [OF y, of a h] show ?thesis
      using le_Num_finite by fastforce
  qed
  have same_dom: "(distances ?st v \<noteq> None) = (distances st v \<noteq> None)" for v
    using inv_dom [OF inv, of v] inv_dom [OF inv', of v] by simp
  have "(\<exists>x. distances ?st u = Some (Num x)) \<and>
        (\<forall>v\<in>set (getNeighbours u (allowDiagonalsInPaths a)). distances ?st v \<noteq> Some Infinity)"
    if u: "distances ?st u \<noteq> None" "u \<notin> set (unvisitedNodes ?st)" for u
  proof (cases "u = ?c")
    case True
    have "distances ?st ?c = Some (Num x)"
      using x by (simp add: distances_visit_current [OF h])
    moreover have "distances ?st v \<noteq> Some Infinity"
      if v: "v \<in> set (getNeighbours ?c (allowDiagonalsInPaths a))" for v
    proof (cases "distances st v")
      case None
      with same_dom [of v] show ?thesis by auto
    next
      case (Some dv)
      from relaxed_visit [OF h x v Some] show ?thesis
        using le_Num_finite by fastforce
    qed
    ultimately show ?thesis using True by blast
  next
    case False
    with u(2) have old: "u \<notin> set (unvisitedNodes st)" by (simp add: unv)
    from u(1) same_dom [of u] have du: "distances st u \<noteq> None" by simp
    from ri du old obtain y where
      y: "distances st u = Some (Num y)"
      and nb: "\<forall>v\<in>set (getNeighbours u (allowDiagonalsInPaths a)). distances st v \<noteq> Some Infinity"
      unfolding routeInvariant_def by blast
    from distances_visit_le [OF y, of a h] have "\<exists>x. distances ?st u = Some (Num x)"
      using le_Num_finite by blast
    moreover have "distances ?st v \<noteq> Some Infinity"
      if v: "v \<in> set (getNeighbours u (allowDiagonalsInPaths a))" for v
    proof (cases "distances st v")
      case None
      with same_dom [of v] show ?thesis by auto
    next
      case (Some dv)
      with nb v fin [of v] show ?thesis by auto
    qed
    ultimately show ?thesis by blast
  qed
  with inv' d' show ?thesis unfolding routeInvariant_def by blast
qed

lemma follows_steps:
  assumes inv: "dijkstraInvariant a s st"
  shows "follows (previousDistances st) p r s \<Longrightarrow>
     p \<in> set (getNeighbours q (allowDiagonalsInPaths a)) \<Longrightarrow> steps a (q # r @ [s])"
proof (induction r arbitrary: p q)
  case Nil
  then show ?case by simp
next
  case (Cons p0 r)
  from Cons.prems(1) obtain p' where
    p': "p0 = p" "previousDistances st p = Some p'" "follows (previousDistances st) p' r s"
    by auto
  from inv_prev [OF inv p'(2)] have "p \<in> set (getNeighbours p' (allowDiagonalsInPaths a))"
    by simp
  then have "p' \<in> set (getNeighbours p (allowDiagonalsInPaths a))"
    by (rule getNeighbours_sym)
  from Cons.IH [OF p'(3) this] Cons.prems(2) p'(1) show ?case by simp
qed

lemma follows_distances:
  assumes inv: "dijkstraInvariant a s st"
  shows "follows (previousDistances st) p r s \<Longrightarrow> distances st p = Some (Num x) \<Longrightarrow>
     v \<in> set r \<Longrightarrow> \<exists>y. distances st v = Some (Num y) \<and> y \<le> x"
proof (induction r arbitrary: p x)
  case Nil
  then show ?case by simp
next
  case (Cons p0 r)
  from Cons.prems(1) obtain p' where
    p': "p0 = p" "previousDistances st p = Some p'" "follows (previousDistances st) p' r s"
    by auto
  show ?case
  proof (cases "v = p")
    case True
    with Cons.prems(2) show ?thesis by simp
  next
    case False
    with Cons.prems(3) p'(1) have v: "v \<in> set r" by simp
    from inv_prev [OF inv p'(2)] Cons.prems(2) obtain x' where
      x': "distances st p' = Some (Num x')" "x' + 1 \<le> x"
      by auto
    from Cons.IH [OF p'(3) x'(1) v] x'(2) show ?thesis by fastforce
  qed
qed

lemma route_found:
  assumes inv: "dijkstraInvariant a s st"
    and fin: "distances st d = Some (Num y)"
    and ne: "s \<noteq> d"
  shows "\<exists>r. collectPath (previousDistances st) (previousDistances st d) [] = Some r \<and>
           steps a (d # r @ [s]) \<and> s \<notin> set r \<and> d \<notin> set r"
proof -
  from inv_has_prev [OF inv fin] ne obtain p where p: "previousDistances st d = Some p"
    by auto
  from inv_prev [OF inv p] fin obtain x where
    x: "distances st p = Some (Num x)" "x + 1 \<le> y"
       "d \<in> set (getNeighbours p (allowDiagonalsInPaths a))"
    by auto
  from collectPath_follows [OF inv x(1), of "[]"] obtain r where
    r: "collectPath (previousDistances st) (Some p) [] = Some r"
       "follows (previousDistances st) p r s"
    by auto
  have "steps a (d # r @ [s])"
    by (rule follows_steps [OF inv r(2) getNeighbours_sym [OF x(3)]])
  moreover have "s \<notin> set r"
    using follows_members [OF inv r(2)] by blast
  moreover have "d \<notin> set r"
  proof
    assume "d \<in> set r"
    from follows_distances [OF inv r(2) x(1) this] fin x(2) show False by simp
  qed
  ultimately show ?thesis using r(1) p by simp
qed

lemma route_initial:
  assumes "isValidAgentPosition a d"
  shows "routeInvariant a s d (initialDijkstra a s)"
proof -
  have "d \<in> set (unvisitedNodes (initialDijkstra a s))"
    using assms valid_in_cells [OF assms] by (auto simp: unvisited_initial)
  moreover have "u \<in> set (unvisitedNodes (initialDijkstra a s))"
    if "distances (initialDijkstra a s) u \<noteq> None" for u
    using that valid_in_cells [of a u]
    by (auto simp: unvisited_initial distances_initial split: if_splits)
  ultimately show ?thesis
    unfolding routeInvariant_def using inv_initial [of a s] by blast
qed

text \<open>
  C1. For a heuristic that is never negative and a source and destination joined by a
  route of valid agent positions, \<open>findDijkstraPath\<close> returns a path \<open>r\<close> that runs from
  the destination's side back to the source's side: in the list made of the destination,
  then \<open>r\<close>, then the source, each cell is followed by one of its neighbours, so the first
  element of \<open>r\<close> is next to the destination and the last is next to the source; neither
  endpoint occurs in \<open>r\<close>. When source and destination coincide, \<open>r\<close> is empty.
\<close>

theorem findDijkstraPath_destination_first:
  assumes h: "\<forall>xy. 0 \<le> h xy"
    and route: "isRoute a route s d"
  shows "\<exists>r. findDijkstraPath a s d h = Some r \<and>
     (if s = d then r = [] else steps a (d # r @ [s]) \<and> s \<notin> set r \<and> d \<notin> set r)"
proof (cases "s = d")
  case True
  with near_empty [OF h, of s s a] show ?thesis by simp
next
  case False
  have dv: "isValidAgentPosition a d"
    using route by (auto simp: isRoute_def)
  have "\<exists>r. findDijkstraPath a s d h = Some r \<and>
          steps a (d # r @ [s]) \<and> s \<notin> set r \<and> d \<notin> set r"
    unfolding findDijkstraPath_def
  proof (rule dijkstraLoop_rule [where I = "routeInvariant a s d"])
    show "routeInvariant a s d (initialDijkstra a s)" by (rule route_initial [OF dv])
  next
    fix st
    assume "routeInvariant a s d st" "unvisitedNodes st \<noteq> []" "nextNode st \<noteq> d"
    then show "routeInvariant a s d (visit a h st)"
      by (intro route_visit [OF h _ route])
  next
    fix st
    assume "routeInvariant a s d st" "unvisitedNodes st = []"
    then have False by (simp add: routeInvariant_def)
    then show "\<exists>r. Some [] = Some r \<and> steps a (d # r @ [s]) \<and> s \<notin> set r \<and> d \<notin> set r" ..
  next
    fix st
    assume ri: "routeInvariant a s d st" and nonempty: "unvisitedNodes st \<noteq> []"
      and found: "nextNode st = d"
    from ri have inv: "dijkstraInvariant a s st" by (simp add: routeInvariant_def)
    from next_finite [OF ri route nonempty] found obtain y where
      "distances st d = Some (Num y)"
      by auto
    from route_found [OF inv this False]
    show "\<exists>r. collectPath (previousDistances st) (previousDistances st d) [] = Some r \<and>
            steps a (d # r @ [s]) \<and> s \<notin> set r \<and> d \<notin> set r" .
  qed
  with False show ?thesis by simp
qed

theorem findDijkstraPath_destination_first_witness:
  "(\<forall>xy. 0 \<le> (constantly 0 :: coordinates \<Rightarrow> real) xy) \<and>
   isRoute corridor [(0, 0), (1, 0), (2, 0), (3, 0)] (0, 0) (3, 0) \<and>
   (\<exists>r. findDijkstraPath corridor (0, 0) (3, 0) (constantly 0) = Some r \<and>
      (if (0, 0) = ((3, 0) :: coordinates) then r = []
       else steps corridor ((3, 0) # r @ [(0, 0)]) \<and> (0, 0) \<notin> set r \<and> (3, 0) \<notin> set r))"
proof -
  have h: "\<forall>xy. 0 \<le> (constantly 0 :: coordinates \<Rightarrow> real) xy"
    by (simp add: constantly_def)
  have v: "isValidAgentPosition corridor (x, 0)" if "0 \<le> x" "x < 4" for x
    using that
    by (simp add: isValidAgentPosition_def areCoordinatesValid_def corridor_def newArea_def
          get_def toString_def)
  have r: "isRoute corridor [(0, 0), (1, 0), (2, 0), (3, 0)] (0, 0) (3, 0)"
    by (simp add: isRoute_def v getNeighbours_def)
  from h r findDijkstraPath_destination_first [OF h r] show ?thesis by blast
qed

section \<open>Dijkstra and A*: shortest paths\<close>

subsection \<open>A round of updates, cell by cell\<close>

lemma distinct_getNeighbours: "distinct (getNeighbours c g)"
  by (cases c) (simp add: getNeighbours_def)

lemma self_not_neighbour: "c \<notin> set (getNeighbours c g)"
  by (cases c) (simp add: getNeighbours_iff)

lemma updateDistance_other:
  assumes "v \<noteq> n"
  shows "distances (updateDistance h c st n) v = distances st v"
    and "previousDistances (updateDistance h c st n) v = previousDistances st v"
  using assms by (simp_all add: updateDistance_alt Let_def split: option.splits)

lemma updateDistance_at:
  assumes "distances st c = Some dc"
  shows "distances (updateDistance h c st n) n =
           (if jsLess (Some (numAdd dc (1 + h n))) (distances st n)
            then Some (numAdd dc (1 + h n)) else distances st n)"
    and "previousDistances (updateDistance h c st n) n =
           (if jsLess (Some (numAdd dc (1 + h n))) (distances st n)
            then Some c else previousDistances st n)"
  using assms by (simp_all add: updateDistance_alt Let_def)

lemma foldl_updateDistance_pointwise:
  "distances st c = Some dc \<Longrightarrow> distinct ns \<Longrightarrow> c \<notin> set ns \<Longrightarrow>
     distances (foldl (updateDistance h c) st ns) v =
       (if v \<in> set ns \<and> jsLess (Some (numAdd dc (1 + h v))) (distances st v)
        then Some (numAdd dc (1 + h v)) else distances st v) \<and>
     previousDistances (foldl (updateDistance h c) st ns) v =
       (if v \<in> set ns \<and> jsLess (Some (numAdd dc (1 + h v))) (distances st v)
        then Some c else previousDistances st v)"
proof (induction ns arbitrary: st)
  case Nil
  then show ?case by simp
next
  case (Cons n ns)
  let ?st1 = "updateDistance h c st n"
  have nc: "c \<noteq> n" using Cons.prems(3) by auto
  have c1: "distances ?st1 c = Some dc"
    using Cons.prems(1) nc by (simp add: updateDistance_other)
  have IH: "distances (foldl (updateDistance h c) ?st1 ns) v =
       (if v \<in> set ns \<and> jsLess (Some (numAdd dc (1 + h v))) (distances ?st1 v)
        then Some (numAdd dc (1 + h v)) else distances ?st1 v) \<and>
     previousDistances (foldl (updateDistance h c) ?st1 ns) v =
       (if v \<in> set ns \<and> jsLess (Some (numAdd dc (1 + h v))) (distances ?st1 v)
        then Some c else previousDistances ?st1 v)"
    using Cons.prems(2,3) by (intro Cons.IH [OF c1]) auto
  show ?case
  proof (cases "v = n")
    case True
    then have "v \<notin> set ns" using Cons.prems(2) by simp
    with IH True updateDistance_at [OF Cons.prems(1), of h n] show ?thesis by simp
  next
    case False
    with IH updateDistance_other [OF False, of h c st] show ?thesis by simp
  qed
qed

lemma visit_pointwise:
  assumes "distances st (nextNode st) = Some dc"
  shows "distances (visit a h st) v =
       (if v \<in> set (getNeighbours (nextNode st) (allowDiagonalsInPaths a)) \<and>
           jsLess (Some (numAdd dc (1 + h v))) (distances st v)
        then Some (numAdd dc (1 + h v)) else distances st v)"
    and "previousDistances (visit a h st) v =
       (if v \<in> set (getNeighbours (nextNode st) (allowDiagonalsInPaths a)) \<and>
           jsLess (Some (numAdd dc (1 + h v))) (distances st v)
        then Some (nextNode st) else previousDistances st v)"
proof -
  let ?st0 = "st\<lparr>unvisitedNodes := removeAll (nextNode st) (unvisitedNodes st)\<rparr>"
  have "distances ?st0 (nextNode st) = Some dc" using assms by simp
  from foldl_updateDistance_pointwise
    [OF this distinct_getNeighbours self_not_neighbour, where h = h and v = v
       and g1 = "allowDiagonalsInPaths a"]
  show "distances (visit a h st) v =
       (if v \<in> set (getNeighbours (nextNode st) (allowDiagonalsInPaths a)) \<and>
           jsLess (Some (numAdd dc (1 + h v))) (distances st v)
        then Some (numAdd dc (1 + h v)) else distances st v)"
    and "previousDistances (visit a h st) v =
       (if v \<in> set (getNeighbours (nextNode st) (allowDiagonalsInPaths a)) \<and>
           jsLess (Some (numAdd dc (1 + h v))) (distances st v)
        then Some (nextNode st) else previousDistances st v)"
    by (simp_all add: visit_def Let_def)
qed

lemma opt_inv: "optInvariant a s d h st \<Longrightarrow> dijkstraInvariant a s st"
  by (simp add: optInvariant_def)

lemma opt_dest: "optInvariant a s d h st \<Longrightarrow> d \<in> set (unvisitedNodes st)"
  by (simp add: optInvariant_def)

lemma opt_prev:
  "optInvariant a s d h st \<Longrightarrow> previousDistances st v = Some p \<Longrightarrow>
     p \<notin> set (unvisitedNodes st) \<and>
     (\<exists>x. distances st p = Some (Num x) \<and> distances st v = Some (Num (x + (1 + h v))))"
  unfolding optInvariant_def by blast

lemma opt_order:
  "optInvariant a s d h st \<Longrightarrow> distances st u \<noteq> None \<Longrightarrow> u \<notin> set (unvisitedNodes st) \<Longrightarrow>
     v \<in> set (unvisitedNodes st) \<Longrightarrow> \<not> jsLess (distances st v) (distances st u)"
  unfolding optInvariant_def by blast

lemma opt_relaxed:
  "optInvariant a s d h st \<Longrightarrow> distances st u = Some (Num x) \<Longrightarrow>
     u \<notin> set (unvisitedNodes st) \<Longrightarrow> v \<in> set (getNeighbours u (allowDiagonalsInPaths a)) \<Longrightarrow>
     \<not> jsLess (Some (Num (x + (1 + h v)))) (distances st v)"
  unfolding optInvariant_def by blast

lemma not_less_Num: "\<not> numLess (Num x) dv \<Longrightarrow> \<exists>y. dv = Num y \<and> y \<le> x"
  by (cases dv) auto

lemma opt_visit:
  assumes h: "\<forall>xy. 0 \<le> h xy"
    and opt: "optInvariant a s d h st"
    and nonempty: "unvisitedNodes st \<noteq> []"
    and ne: "nextNode st \<noteq> d"
  shows "optInvariant a s d h (visit a h st)"
proof -
  let ?c = "nextNode st"
  let ?st = "visit a h st"
  let ?N = "set (getNeighbours ?c (allowDiagonalsInPaths a))"
  note inv = opt_inv [OF opt]
  have inv': "dijkstraInvariant a s ?st" by (rule inv_visit [OF h inv])
  have c_in: "?c \<in> set (unvisitedNodes st)" by (rule nextNode_in [OF nonempty])
  from inv_unvisited [OF inv c_in] obtain dc where dc: "distances st ?c = Some dc" by blast
  let ?new = "\<lambda>v. numAdd dc (1 + h v)"
  let ?upd = "\<lambda>v. v \<in> ?N \<and> jsLess (Some (?new v)) (distances st v)"
  note pw = visit_pointwise [OF dc, of a h]
  have not_upd: "distances ?st v = distances st v \<and>
                 previousDistances ?st v = previousDistances st v" if "\<not> ?upd v" for v
    unfolding pw using that by presburger
  have is_upd: "distances ?st v = Some (?new v) \<and> previousDistances ?st v = Some ?c"
    if "?upd v" for v
    unfolding pw using that by presburger
  have hv: "0 \<le> h v" for v using h by blast
  have unv: "set (unvisitedNodes ?st) = set (unvisitedNodes st) - {?c}"
    by (simp add: unvisited_visit)
  have dom: "\<forall>v\<in>set (unvisitedNodes st). distances st v \<noteq> None"
    using inv_unvisited [OF inv] by blast
  have least: "\<not> jsLess (distances st v) (Some dc)" if "v \<in> set (unvisitedNodes st)" for v
    using nextNode_least [OF nonempty dom] that dc by auto
  have before: "\<not> jsLess (Some dc) (distances st u)"
    if "distances st u \<noteq> None" "u \<notin> set (unvisitedNodes st)" for u
    using opt_order [OF opt that c_in] dc by simp
  have upd_Num: "\<exists>x dv. dc = Num x \<and> distances st v = Some dv \<and>
                   numLess (Num (x + (1 + h v))) dv" if "?upd v" for v
  proof -
    from that obtain dv where dv: "distances st v = Some dv" "numLess (?new v) dv"
      by (cases "distances st v") auto
    then show ?thesis by (cases dc) auto
  qed
  have upd_unvisited: "v \<in> set (unvisitedNodes st) \<and> v \<noteq> ?c" if "?upd v" for v
  proof -
    from upd_Num [OF that] obtain x dv where
      x: "dc = Num x" "distances st v = Some dv" "numLess (Num (x + (1 + h v))) dv"
      by blast
    have "v \<noteq> ?c" using that self_not_neighbour by blast
    moreover have "v \<in> set (unvisitedNodes st)"
    proof (rule ccontr)
      assume "v \<notin> set (unvisitedNodes st)"
      with before [of v] x(1,2) have "\<not> numLess (Num x) dv" by simp
      then obtain y where "dv = Num y" "y \<le> x" using not_less_Num by blast
      with x(3) hv [of v] show False by simp
    qed
    ultimately show ?thesis by simp
  qed
  have visited_same: "distances ?st u = distances st u \<and> previousDistances ?st u = previousDistances st u"
    if "u \<notin> set (unvisitedNodes ?st)" for u
  proof -
    from that have "u = ?c \<or> u \<notin> set (unvisitedNodes st)" by (auto simp: unv)
    with upd_unvisited [of u] have "\<not> ?upd u" by blast
    then show ?thesis by (rule not_upd)
  qed
  have d': "d \<in> set (unvisitedNodes ?st)"
    using opt_dest [OF opt] ne by (simp add: unv)
  have o1: "p \<notin> set (unvisitedNodes ?st) \<and>
      (\<exists>x. distances ?st p = Some (Num x) \<and> distances ?st v = Some (Num (x + (1 + h v))))"
    if pv: "previousDistances ?st v = Some p" for v p
  proof (cases "?upd v")
    case True
    with pv is_upd [of v] have p: "p = ?c" by simp
    from upd_Num [OF True] obtain x where x: "dc = Num x" by blast
    have "?c \<notin> set (unvisitedNodes ?st)" by (simp add: unv)
    moreover from visited_same [OF this] dc x have "distances ?st ?c = Some (Num x)" by simp
    moreover have "distances ?st v = Some (Num (x + (1 + h v)))"
      using is_upd [OF True] x by simp
    ultimately show ?thesis using p by simp
  next
    case False
    with pv not_upd [of v] have old: "previousDistances st v = Some p" by simp
    from opt_prev [OF opt old] obtain x where
      x: "p \<notin> set (unvisitedNodes st)" "distances st p = Some (Num x)"
         "distances st v = Some (Num (x + (1 + h v)))"
      by blast
    have p': "p \<notin> set (unvisitedNodes ?st)" using x(1) by (simp add: unv)
    from visited_same [OF p'] x(2) have "distances ?st p = Some (Num x)" by simp
    moreover have "distances ?st v = Some (Num (x + (1 + h v)))"
      using not_upd [OF False] x(3) by simp
    ultimately show ?thesis using p' by blast
  qed
  have o2: "\<not> jsLess (distances ?st v) (distances ?st u)"
    if u: "distances ?st u \<noteq> None" "u \<notin> set (unvisitedNodes ?st)"
      and v: "v \<in> set (unvisitedNodes ?st)" for u v
  proof -
    from v have v0: "v \<in> set (unvisitedNodes st)" "v \<noteq> ?c" by (simp_all add: unv)
    from visited_same [OF u(2)] have same: "distances ?st u = distances st u" by simp
    with u(1) obtain du where du: "distances st u = Some du" by auto
    have uc: "u = ?c \<or> u \<notin> set (unvisitedNodes st)" using u(2) by (auto simp: unv)
    have base: "\<not> jsLess (distances st v) (Some du)"
    proof (cases "u = ?c")
      case True
      with least [OF v0(1)] dc du show ?thesis by simp
    next
      case False
      with uc opt_order [OF opt _ _ v0(1), of u] du show ?thesis by simp
    qed
    have below: "\<not> numLess dc du"
    proof (cases "u = ?c")
      case True
      with dc du show ?thesis by (simp add: numLess_irrefl)
    next
      case False
      with uc before [of u] du show ?thesis by simp
    qed
    show ?thesis
    proof (cases "?upd v")
      case False
      with base same du not_upd [of v] show ?thesis by simp
    next
      case True
      from upd_Num [OF True] obtain x where x: "dc = Num x" by blast
      from below x obtain y where y: "du = Num y" "y \<le> x" using not_less_Num by blast
      have "distances ?st v = Some (Num (x + (1 + h v)))"
        using is_upd [OF True] x by simp
      with same du y hv [of v] show ?thesis by simp
    qed
  qed
  have o3: "\<not> jsLess (Some (Num (xu + (1 + h v)))) (distances ?st v)"
    if u: "distances ?st u = Some (Num xu)" "u \<notin> set (unvisitedNodes ?st)"
      and v: "v \<in> set (getNeighbours u (allowDiagonalsInPaths a))" for u xu v
  proof -
    from visited_same [OF u(2)] u(1) have du: "distances st u = Some (Num xu)" by simp
    have uc: "u = ?c \<or> u \<notin> set (unvisitedNodes st)" using u(2) by (auto simp: unv)
    have base: "u \<noteq> ?c \<Longrightarrow> \<not> jsLess (Some (Num (xu + (1 + h v)))) (distances st v)"
      using uc opt_relaxed [OF opt du _ v] by blast
    show ?thesis
    proof (cases "?upd v")
      case True
      from upd_Num [OF True] obtain x dv where
        x: "dc = Num x" "distances st v = Some dv" "numLess (Num (x + (1 + h v))) dv"
        by blast
      have new: "distances ?st v = Some (Num (x + (1 + h v)))"
        using is_upd [OF True] x(1) by simp
      have "x \<le> xu"
      proof (cases "u = ?c")
        case True
        with dc du x(1) show ?thesis by simp
      next
        case False
        from base [OF False] x(2) have "\<not> numLess (Num (xu + (1 + h v))) dv" by simp
        then obtain y where "dv = Num y" "y \<le> xu + (1 + h v)" using not_less_Num by blast
        with x(3) show ?thesis by simp
      qed
      with new show ?thesis by simp
    next
      case False
      then have same: "distances ?st v = distances st v" using not_upd [of v] by simp
      show ?thesis
      proof (cases "u = ?c")
        case True
        with dc du have "dc = Num xu" by simp
        with False v True show ?thesis unfolding same by simp
      next
        case ne: False
        from base [OF ne] show ?thesis unfolding same .
      qed
    qed
  qed
  show ?thesis
    unfolding optInvariant_def
    using inv' d' o1 o2 o3 by blast
qed

lemma pathCost_nonneg: "\<forall>xy. 0 \<le> h xy \<Longrightarrow> 0 \<le> pathCost h vs"
proof (induction vs)
  case Nil
  then show ?case by simp
next
  case (Cons v vs)
  then have "0 \<le> h v" by blast
  with Cons show ?case by simp
qed

lemma pathCost_append: "pathCost h (us @ vs) = pathCost h us + pathCost h vs"
  by (induction us) simp_all

lemma pathCost_rev: "pathCost h (rev vs) = pathCost h vs"
  by (induction vs) (simp_all add: pathCost_append)

lemma opt_cut:
  assumes h: "\<forall>xy. 0 \<le> h xy" and opt: "optInvariant a s d h st"
  shows "steps a r \<Longrightarrow> \<forall>xy\<in>set r. isValidAgentPosition a xy \<Longrightarrow> r \<noteq> [] \<Longrightarrow>
     distances st (hd r) = Some (Num xu) \<Longrightarrow> hd r \<notin> set (unvisitedNodes st) \<Longrightarrow>
     last r \<in> set (unvisitedNodes st) \<Longrightarrow>
     \<exists>w yw. w \<in> set (unvisitedNodes st) \<and> distances st w = Some (Num yw) \<and>
            yw \<le> xu + pathCost h (tl r)"
proof (induction r arbitrary: xu)
  case Nil
  then show ?case by simp
next
  case outer: (Cons u r)
  note inv = opt_inv [OF opt]
  show ?case
  proof (cases r)
    case Nil
    with outer.prems(5,6) show ?thesis by simp
  next
    case (Cons v rest)
    have du: "distances st u = Some (Num xu)" "u \<notin> set (unvisitedNodes st)"
      using outer.prems(4,5) by simp_all
    have v: "v \<in> set (getNeighbours u (allowDiagonalsInPaths a))"
      using outer.prems(1) Cons by simp
    have "isValidAgentPosition a v" using outer.prems(2) Cons by simp
    with inv_dom [OF inv, of v] obtain dv where dv: "distances st v = Some dv" by auto
    from opt_relaxed [OF opt du v] dv have "\<not> numLess (Num (xu + (1 + h v))) dv" by simp
    then obtain yv where yv: "dv = Num yv" "yv \<le> xu + (1 + h v)"
      using not_less_Num by blast
    have rest0: "0 \<le> pathCost h rest" by (rule pathCost_nonneg [OF h])
    show ?thesis
    proof (cases "v \<in> set (unvisitedNodes st)")
      case True
      with dv yv rest0 Cons show ?thesis by (intro exI [of _ v] exI [of _ yv]) simp
    next
      case False
      have "\<exists>w yw. w \<in> set (unvisitedNodes st) \<and> distances st w = Some (Num yw) \<and>
              yw \<le> yv + pathCost h (tl r)"
      proof (rule outer.IH)
        show "steps a r" using outer.prems(1) Cons by simp
        show "\<forall>xy\<in>set r. isValidAgentPosition a xy" using outer.prems(2) by simp
        show "r \<noteq> []" using Cons by simp
        show "distances st (hd r) = Some (Num yv)" using Cons dv yv(1) by simp
        show "hd r \<notin> set (unvisitedNodes st)" using Cons False by simp
        show "last r \<in> set (unvisitedNodes st)" using outer.prems(6) Cons by simp
      qed
      then obtain w yw where
        w: "w \<in> set (unvisitedNodes st)" "distances st w = Some (Num yw)"
           "yw \<le> yv + pathCost h (tl r)"
        by blast
      have "yw \<le> xu + pathCost h (tl (u # r))"
        using w(3) yv(2) Cons by simp
      with w(1,2) show ?thesis by blast
    qed
  qed
qed

lemma follows_cost:
  assumes opt: "optInvariant a s d h st"
  shows "follows (previousDistances st) p r s \<Longrightarrow> distances st p = Some (Num x) \<Longrightarrow>
     pathCost h r = x"
proof (induction r arbitrary: p x)
  case Nil
  with inv_source [OF opt_inv [OF opt]] show ?case by simp
next
  case (Cons p0 r)
  from Cons.prems(1) obtain p' where
    p': "p0 = p" "previousDistances st p = Some p'" "follows (previousDistances st) p' r s"
    by auto
  from opt_prev [OF opt p'(2)] Cons.prems(2) obtain x' where
    x': "distances st p' = Some (Num x')" "x = x' + (1 + h p)"
    by auto
  from Cons.IH [OF p'(3) x'(1)] x'(2) p'(1) show ?case by simp
qed

lemma opt_initial:
  assumes "isValidAgentPosition a d"
  shows "optInvariant a s d h (initialDijkstra a s)"
proof -
  have d: "d \<in> set (unvisitedNodes (initialDijkstra a s))"
    using assms valid_in_cells [OF assms] by (auto simp: unvisited_initial)
  have all: "u \<in> set (unvisitedNodes (initialDijkstra a s))"
    if "distances (initialDijkstra a s) u \<noteq> None" for u
    using that valid_in_cells [of a u]
    by (auto simp: unvisited_initial distances_initial split: if_splits)
  have "previousDistances (initialDijkstra a s) v \<noteq> Some p" for v p
    by (simp add: previous_initial)
  with d all show ?thesis
    unfolding optInvariant_def using inv_initial [of a s] by fastforce
qed

lemma opt_found:
  assumes h: "\<forall>xy. 0 \<le> h xy"
    and opt: "optInvariant a s d h st"
    and nonempty: "unvisitedNodes st \<noteq> []"
    and found: "nextNode st = d"
    and ne: "s \<noteq> d"
    and route: "isRoute a route s d"
  shows "\<exists>r. collectPath (previousDistances st) (previousDistances st d) [] = Some r \<and>
           steps a (d # r @ [s]) \<and> (\<forall>xy\<in>set r. isValidAgentPosition a xy) \<and>
           (\<forall>other. isRoute a other s d \<longrightarrow> pathCost h (d # r) \<le> pathCost h (tl other))"
proof -
  note inv = opt_inv [OF opt]
  have d_in: "d \<in> set (unvisitedNodes st)" by (rule opt_dest [OF opt])
  have s_out: "s \<notin> set (unvisitedNodes st)"
    using nextNode_source [OF inv] found ne by auto
  have dom: "\<forall>v\<in>set (unvisitedNodes st). distances st v \<noteq> None"
    using inv_unvisited [OF inv] by blast
  have bound: "\<exists>y. distances st d = Some (Num y) \<and> y \<le> pathCost h (tl other)"
    if other: "isRoute a other s d" for other
  proof -
    from other have o: "steps a other" "\<forall>xy\<in>set other. isValidAgentPosition a xy"
      "other \<noteq> []" "hd other = s" "last other = d"
      by (simp_all add: isRoute_def)
    have "\<exists>w yw. w \<in> set (unvisitedNodes st) \<and> distances st w = Some (Num yw) \<and>
            yw \<le> 0 + pathCost h (tl other)"
      by (rule opt_cut [OF h opt o(1,2,3)])
         (simp_all add: o(4,5) inv_source [OF inv] s_out d_in)
    then obtain w yw where
      w: "w \<in> set (unvisitedNodes st)" "distances st w = Some (Num yw)"
         "yw \<le> pathCost h (tl other)"
      by auto
    from nextNode_least [OF nonempty dom] w(1) found
    have "\<not> jsLess (distances st w) (distances st d)" by auto
    moreover from inv_unvisited [OF inv d_in] obtain dd where dd: "distances st d = Some dd"
      by blast
    ultimately have "\<not> numLess (Num yw) dd" using w(2) by simp
    then obtain y where "dd = Num y" "y \<le> yw" using not_less_Num by blast
    with dd w(3) show ?thesis by auto
  qed
  from bound [OF route] obtain y where y: "distances st d = Some (Num y)" by blast
  from inv_has_prev [OF inv y] ne obtain p where p: "previousDistances st d = Some p"
    by auto
  from opt_prev [OF opt p] y obtain x where
    x: "distances st p = Some (Num x)" "y = x + (1 + h d)"
    by auto
  from inv_prev [OF inv p] have adj: "d \<in> set (getNeighbours p (allowDiagonalsInPaths a))"
    by simp
  from collectPath_follows [OF inv x(1), of "[]"] obtain r where
    r: "collectPath (previousDistances st) (Some p) [] = Some r"
       "follows (previousDistances st) p r s"
    by auto
  have "steps a (d # r @ [s])"
    by (rule follows_steps [OF inv r(2) getNeighbours_sym [OF adj]])
  moreover have "\<forall>xy\<in>set r. isValidAgentPosition a xy"
    using follows_members [OF inv r(2)] by blast
  moreover have "pathCost h (d # r) \<le> pathCost h (tl other)" if "isRoute a other s d" for other
    using bound [OF that] y x(2) follows_cost [OF opt r(2) x(1)] by simp
  ultimately show ?thesis using r(1) p by simp
qed

lemma dijkstra_optimal:
  assumes h: "\<forall>xy. 0 \<le> h xy"
    and route: "isRoute a route s d"
    and ne: "s \<noteq> d"
  shows "\<exists>r. findDijkstraPath a s d h = Some r \<and>
           steps a (d # r @ [s]) \<and> (\<forall>xy\<in>set r. isValidAgentPosition a xy) \<and>
           (\<forall>other. isRoute a other s d \<longrightarrow> pathCost h (d # r) \<le> pathCost h (tl other))"
  unfolding findDijkstraPath_def
proof (rule dijkstraLoop_rule [where I = "optInvariant a s d h"])
  have "isValidAgentPosition a d" using route by (auto simp: isRoute_def)
  then show "optInvariant a s d h (initialDijkstra a s)" by (rule opt_initial)
next
  fix st
  assume "optInvariant a s d h st" "unvisitedNodes st \<noteq> []" "nextNode st \<noteq> d"
  then show "optInvariant a s d h (visit a h st)" by (rule opt_visit [OF h])
next
  fix st
  assume "optInvariant a s d h st" "unvisitedNodes st = []"
  then have False using opt_dest [of a s d h st] by simp
  then show "\<exists>r. Some [] = Some r \<and>
           steps a (d # r @ [s]) \<and> (\<forall>xy\<in>set r. isValidAgentPosition a xy) \<and>
           (\<forall>other. isRoute a other s d \<longrightarrow> pathCost h (d # r) \<le> pathCost h (tl other))" ..
next
  fix st
  assume "optInvariant a s d h st" "unvisitedNodes st \<noteq> []" "nextNode st = d"
  then show "\<exists>r. collectPath (previousDistances st) (previousDistances st d) [] = Some r \<and>
           steps a (d # r @ [s]) \<and> (\<forall>xy\<in>set r. isValidAgentPosition a xy) \<and>
           (\<forall>other. isRoute a other s d \<longrightarrow> pathCost h (d # r) \<le> pathCost h (tl other))"
    by (rule opt_found [OF h _ _ _ ne route])
qed

section \<open>Paths on a grid without walls\<close>

lemma orthogonal_iff:
  "v \<in> set (getNeighbours u False) \<longleftrightarrow> \<bar>fst v - fst u\<bar> + \<bar>snd v - snd u\<bar> = 1"
  by (cases u; cases v) (simp add: getNeighbours_iff)

lemma advance_x:
  assumes "fst q \<noteq> fst d"
  shows "\<exists>q1. q1 \<in> set (getNeighbours q False) \<and>
     \<bar>fst q1 - fst d\<bar> = \<bar>fst q - fst d\<bar> - 1 \<and> snd q1 = snd q \<and>
     manhattan q1 d = manhattan q d - 1 \<and> between q d q1 \<and>
     (\<forall>c. between q1 d c \<longrightarrow> between q d c)"
proof (cases "fst q < fst d")
  case True
  let ?q1 = "(fst q + 1, snd q)"
  have "?q1 \<in> set (getNeighbours q False)"
    by (simp add: orthogonal_iff)
  moreover have x: "\<bar>fst ?q1 - fst d\<bar> = \<bar>fst q - fst d\<bar> - 1"
    using True by simp
  moreover have "manhattan ?q1 d = manhattan q d - 1"
    unfolding manhattan_def using x by simp
  moreover have "between q d ?q1"
    using True by (simp add: between_def min_def max_def)
  moreover have "\<forall>c. between ?q1 d c \<longrightarrow> between q d c"
    using True by (simp add: between_def min_def max_def)
  ultimately show ?thesis by (intro exI [of _ ?q1]) simp
next
  case False
  with assms have gt: "fst d < fst q" by simp
  let ?q1 = "(fst q - 1, snd q)"
  have "?q1 \<in> set (getNeighbours q False)"
    by (simp add: orthogonal_iff)
  moreover have x: "\<bar>fst ?q1 - fst d\<bar> = \<bar>fst q - fst d\<bar> - 1"
    using gt by simp
  moreover have "manhattan ?q1 d = manhattan q d - 1"
    unfolding manhattan_def using x by simp
  moreover have "between q d ?q1"
    using gt by (simp add: between_def min_def max_def)
  moreover have "\<forall>c. between ?q1 d c \<longrightarrow> between q d c"
    using gt by (simp add: between_def min_def max_def)
  ultimately show ?thesis by (intro exI [of _ ?q1]) simp
qed

lemma advance_y:
  assumes "snd q \<noteq> snd d"
  shows "\<exists>q1. q1 \<in> set (getNeighbours q False) \<and>
     \<bar>snd q1 - snd d\<bar> = \<bar>snd q - snd d\<bar> - 1 \<and> fst q1 = fst q \<and>
     manhattan q1 d = manhattan q d - 1 \<and> between q d q1 \<and>
     (\<forall>c. between q1 d c \<longrightarrow> between q d c)"
proof (cases "snd q < snd d")
  case True
  let ?q1 = "(fst q, snd q + 1)"
  have "?q1 \<in> set (getNeighbours q False)"
    by (simp add: orthogonal_iff)
  moreover have y: "\<bar>snd ?q1 - snd d\<bar> = \<bar>snd q - snd d\<bar> - 1"
    using True by simp
  moreover have "manhattan ?q1 d = manhattan q d - 1"
    unfolding manhattan_def using y by simp
  moreover have "between q d ?q1"
    using True by (simp add: between_def min_def max_def)
  moreover have "\<forall>c. between ?q1 d c \<longrightarrow> between q d c"
    using True by (simp add: between_def min_def max_def)
  ultimately show ?thesis by (intro exI [of _ ?q1]) simp
next
  case False
  with assms have gt: "snd d < snd q" by simp
  let ?q1 = "(fst q, snd q - 1)"
  have "?q1 \<in> set (getNeighbours q False)"
    by (simp add: orthogonal_iff)
  moreover have y: "\<bar>snd ?q1 - snd d\<bar> = \<bar>snd q - snd d\<bar> - 1"
    using gt by simp
  moreover have "manhattan ?q1 d = manhattan q d - 1"
    unfolding manhattan_def using y by simp
  moreover have "between q d ?q1"
    using gt by (simp add: between_def min_def max_def)
  moreover have "\<forall>c. between ?q1 d c \<longrightarrow> between q d c"
    using gt by (simp add: between_def min_def max_def)
  ultimately show ?thesis by (intro exI [of _ ?q1]) simp
qed

lemma abs_step: "\<bar>p - (d::int)\<bar> \<le> \<bar>v - d\<bar> + \<bar>v - p\<bar>"
  by linarith

lemma advance:
  assumes cl: "closer d q v0"
    and step: "v1 \<in> set (getNeighbours v0 False)"
    and ncl: "\<not> closer d q v1"
  shows "\<exists>q1. q1 \<in> set (getNeighbours q False) \<and> closer d q1 v1 \<and>
     manhattan q1 d = manhattan q d - 1 \<and> between q d q1 \<and>
     (\<forall>c. between q1 d c \<longrightarrow> between q d c)"
proof -
  define ex ey where "ex = \<bar>fst v1 - fst v0\<bar>" and "ey = \<bar>snd v1 - snd v0\<bar>"
  define qx qy where "qx = \<bar>fst q - fst d\<bar>" and "qy = \<bar>snd q - snd d\<bar>"
  define ax ay where "ax = \<bar>fst v0 - fst d\<bar>" and "ay = \<bar>snd v0 - snd d\<bar>"
  define bx by' where "bx = \<bar>fst v1 - fst d\<bar>" and "by' = \<bar>snd v1 - snd d\<bar>"
  have one: "ex + ey = 1" and pos: "0 \<le> ex" "0 \<le> ey"
    using step by (simp_all add: orthogonal_iff ex_def ey_def)
  have cl': "qx \<le> ax" "qy \<le> ay"
    using cl by (simp_all add: closer_def qx_def qy_def ax_def ay_def)
  have tx: "ax \<le> bx + ex" unfolding ax_def ay_def bx_def by'_def ex_def ey_def by (rule abs_step)
  have ty: "ay \<le> by' + ey" unfolding ax_def ay_def bx_def by'_def ex_def ey_def by (rule abs_step)
  from ncl have ncl': "bx < qx \<or> by' < qy"
    by (auto simp: closer_def qx_def qy_def bx_def by'_def)
  show ?thesis
  proof (cases "bx < qx")
    case True
    then have "fst q \<noteq> fst d" by (auto simp: qx_def qy_def bx_def by'_def)
    from advance_x [OF this] obtain q1 where
      q1: "q1 \<in> set (getNeighbours q False)" "\<bar>fst q1 - fst d\<bar> = qx - 1"
          "snd q1 = snd q" "manhattan q1 d = manhattan q d - 1" "between q d q1"
          "\<forall>c. between q1 d c \<longrightarrow> between q d c"
      unfolding qx_def qy_def by blast
    from True cl'(1) tx one pos have "ex = 1" "qx - 1 \<le> bx" by linarith+
    with one cl'(2) ty have "qy \<le> by'" by linarith
    with \<open>qx - 1 \<le> bx\<close> q1(2,3) have "closer d q1 v1"
      by (simp add: closer_def qx_def qy_def bx_def by'_def)
    with q1 show ?thesis by blast
  next
    case False
    with ncl' have lt: "by' < qy" by simp
    then have "snd q \<noteq> snd d" by (auto simp: qx_def qy_def bx_def by'_def)
    from advance_y [OF this] obtain q1 where
      q1: "q1 \<in> set (getNeighbours q False)" "\<bar>snd q1 - snd d\<bar> = qy - 1"
          "fst q1 = fst q" "manhattan q1 d = manhattan q d - 1" "between q d q1"
          "\<forall>c. between q1 d c \<longrightarrow> between q d c"
      unfolding qx_def qy_def by blast
    from lt cl'(2) ty one pos have "qy - 1 \<le> by'" by linarith
    with False q1(2,3) have "closer d q1 v1"
      by (simp add: closer_def qx_def qy_def bx_def by'_def)
    with q1 show ?thesis by blast
  qed
qed

lemma between_self: "between q d q" "between q d d"
  by (auto simp: between_def)

lemma closer_dest: "closer d q d \<Longrightarrow> q = d"
  by (cases q; cases d) (simp add: closer_def)

lemma manhattan_self: "manhattan d d = 0"
  by (simp add: manhattan_def)

lemma manhattan_zero: "manhattan q d = 0 \<Longrightarrow> q = d"
  unfolding manhattan_def prod_eq_iff by linarith

lemma monotonise:
  assumes nd: "\<not> allowDiagonalsInPaths a"
    and h: "\<forall>xy. 0 \<le> h xy"
    and mono: "\<And>u v. closer d u v \<Longrightarrow> h u \<le> h v"
  shows "steps a r \<Longrightarrow> r \<noteq> [] \<Longrightarrow> last r = d \<Longrightarrow> closer d q (hd r) \<Longrightarrow>
     \<exists>r'. steps a r' \<and> r' \<noteq> [] \<and> hd r' = q \<and> last r' = d \<and>
          (\<forall>c\<in>set r'. between q d c) \<and>
          pathCost h (tl r') + (real (length r) - 1 - real_of_int (manhattan q d))
            \<le> pathCost h (tl r)"
proof (induction r arbitrary: q)
  case Nil
  then show ?case by simp
next
  case outer: (Cons v0 r)
  show ?case
  proof (cases r)
    case Nil
    with outer.prems(3,4) have "q = d" by (simp add: closer_dest)
    then show ?thesis
      using Nil by (intro exI [of _ "[d]"]) (simp add: between_self manhattan_self)
  next
    case (Cons v1 rest)
    have step: "v1 \<in> set (getNeighbours v0 False)"
      using outer.prems(1) Cons nd by simp
    have tail: "steps a r" "r \<noteq> []" "last r = d"
      using outer.prems(1,3) Cons by simp_all
    have hv1: "0 \<le> h v1" using h by blast
    have cost: "pathCost h (tl (v0 # r)) = (1 + h v1) + pathCost h (tl r)"
      using Cons by simp
    have len: "real (length (v0 # r)) = real (length r) + 1" by simp
    show ?thesis
    proof (cases "closer d q v1")
      case True
      then have "closer d q (hd r)" using Cons by simp
      from outer.IH [OF tail this] obtain r' where
        r': "steps a r'" "r' \<noteq> []" "hd r' = q" "last r' = d" "\<forall>c\<in>set r'. between q d c"
            "pathCost h (tl r') + (real (length r) - 1 - real_of_int (manhattan q d))
               \<le> pathCost h (tl r)"
        by blast
      from r'(6) hv1 have
        "pathCost h (tl r') + (real (length (v0 # r)) - 1 - real_of_int (manhattan q d))
           \<le> pathCost h (tl (v0 # r))"
        unfolding cost len by linarith
      with r'(1-5) show ?thesis by blast
    next
      case False
      from advance [OF outer.prems(4) [simplified] step False] obtain q1 where
        q1: "q1 \<in> set (getNeighbours q False)" "closer d q1 v1"
            "manhattan q1 d = manhattan q d - 1" "between q d q1"
            "\<forall>c. between q1 d c \<longrightarrow> between q d c"
        by blast
      from q1(2) have "closer d q1 (hd r)" using Cons by simp
      from outer.IH [OF tail this] obtain r' where
        r': "steps a r'" "r' \<noteq> []" "hd r' = q1" "last r' = d" "\<forall>c\<in>set r'. between q1 d c"
            "pathCost h (tl r') + (real (length r) - 1 - real_of_int (manhattan q1 d))
               \<le> pathCost h (tl r)"
        by blast
      from r'(2,3) obtain t where t: "r' = q1 # t" by (cases r') auto
      have s1: "steps a (q # r')"
        using r'(1) q1(1) nd t by simp
      have s2: "last (q # r') = d" using r'(2,4) by simp
      have s3: "\<forall>c\<in>set (q # r'). between q d c"
        using r'(5) q1(5) between_self(1) [of q d] by auto
      have hq1: "h q1 \<le> h v1" by (rule mono [OF q1(2)])
      have "pathCost h (tl (q # r')) = (1 + h q1) + pathCost h (tl r')"
        using t by simp
      with r'(6) hq1 q1(3) have
        "pathCost h (tl (q # r')) + (real (length (v0 # r)) - 1 - real_of_int (manhattan q d))
           \<le> pathCost h (tl (v0 # r))"
        unfolding cost len by simp
      with s1 s2 s3 show ?thesis by (intro exI [of _ "q # r'"]) simp
    qed
  qed
qed

lemma straight_route:
  assumes nd: "\<not> allowDiagonalsInPaths a"
  shows "\<exists>r. steps a r \<and> r \<noteq> [] \<and> hd r = q \<and> last r = d \<and> (\<forall>c\<in>set r. between q d c)"
proof (induction "nat (manhattan q d)" arbitrary: q)
  case 0
  then have "manhattan q d \<le> 0" by simp
  moreover have "0 \<le> manhattan q d" by (simp add: manhattan_def)
  ultimately have "q = d" by (intro manhattan_zero) simp
  then show ?case by (intro exI [of _ "[d]"]) (simp add: between_self)
next
  case (Suc n)
  then have pos: "manhattan q d = int n + 1" by simp
  have "\<exists>q1. q1 \<in> set (getNeighbours q False) \<and> manhattan q1 d = manhattan q d - 1 \<and>
          (\<forall>c. between q1 d c \<longrightarrow> between q d c)"
  proof (cases "fst q = fst d")
    case True
    with pos have "snd q \<noteq> snd d" by (auto simp: manhattan_def)
    from advance_y [OF this] show ?thesis by blast
  next
    case False
    from advance_x [OF this] show ?thesis by blast
  qed
  then obtain q1 where
    q1: "q1 \<in> set (getNeighbours q False)" "manhattan q1 d = manhattan q d - 1"
        "\<forall>c. between q1 d c \<longrightarrow> between q d c"
    by blast
  from q1(2) pos have "n = nat (manhattan q1 d)" by simp
  from Suc.hyps(1) [OF this] obtain r where
    r: "steps a r" "r \<noteq> []" "hd r = q1" "last r = d" "\<forall>c\<in>set r. between q1 d c"
    by blast
  from r(2,3) obtain t where t: "r = q1 # t" by (cases r) auto
  have "steps a (q # r)" using r(1) q1(1) nd t by simp
  moreover have "last (q # r) = d" using r(2,4) by simp
  moreover have "\<forall>c\<in>set (q # r). between q d c"
    using r(5) q1(3) between_self(1) [of q d] by auto
  ultimately show ?case by (intro exI [of _ "q # r"]) simp
qed

lemma steps_append:
  "steps a (us @ [u]) \<Longrightarrow> v \<in> set (getNeighbours u (allowDiagonalsInPaths a)) \<Longrightarrow>
     steps a (us @ [u, v])"
proof (induction us)
  case Nil
  then show ?case by simp
next
  case (Cons w us)
  then show ?case by (cases us) auto
qed

lemma steps_rev: "steps a r \<Longrightarrow> steps a (rev r)"
proof (induction r)
  case Nil
  then show ?case by simp
next
  case outer: (Cons u r)
  show ?case
  proof (cases r)
    case Nil
    then show ?thesis by simp
  next
    case (Cons v rest)
    from outer.prems Cons have uv: "v \<in> set (getNeighbours u (allowDiagonalsInPaths a))"
      and "steps a r"
      by simp_all
    with outer.IH have "steps a (rev r)" by simp
    then have "steps a (rev rest @ [v])" using Cons by simp
    from steps_append [OF this getNeighbours_sym [OF uv]] Cons show ?thesis by simp
  qed
qed

lemma steps_manhattan:
  assumes nd: "\<not> allowDiagonalsInPaths a"
  shows "steps a r \<Longrightarrow> r \<noteq> [] \<Longrightarrow> manhattan (hd r) (last r) \<le> int (length r) - 1"
proof (induction r)
  case Nil
  then show ?case by simp
next
  case outer: (Cons u r)
  show ?case
  proof (cases r)
    case Nil
    then show ?thesis by (simp add: manhattan_self)
  next
    case (Cons v rest)
    from outer.prems Cons nd have uv: "v \<in> set (getNeighbours u False)" and tail: "steps a r"
      by simp_all
    from outer.IH [OF tail] Cons have IH: "manhattan v (last r) \<le> int (length r) - 1"
      by simp
    have one: "\<bar>fst v - fst u\<bar> + \<bar>snd v - snd u\<bar> = 1"
      using uv by (simp add: orthogonal_iff)
    have "\<bar>fst u - fst (last r)\<bar> \<le> \<bar>fst v - fst (last r)\<bar> + \<bar>fst v - fst u\<bar>"
      by (rule abs_step)
    moreover have "\<bar>snd u - snd (last r)\<bar> \<le> \<bar>snd v - snd (last r)\<bar> + \<bar>snd v - snd u\<bar>"
      by (rule abs_step)
    ultimately have "manhattan u (last r) \<le> manhattan v (last r) + 1"
      unfolding manhattan_def using one by linarith
    with IH Cons show ?thesis by simp
  qed
qed

lemma open_valid: "obstacleFree a \<Longrightarrow> isValidAgentPosition a xy = areCoordinatesValid a xy"
  unfolding obstacleFree_def isValidAgentPosition_def by blast

lemma between_valid:
  "areCoordinatesValid a s \<Longrightarrow> areCoordinatesValid a d \<Longrightarrow> between s d c \<Longrightarrow>
     areCoordinatesValid a c"
  unfolding areCoordinatesValid_def between_def by (simp add: min_def max_def split: if_splits)

lemma manhattan_sym: "manhattan p q = manhattan q p"
  by (simp add: manhattan_def abs_minus_commute)

lemma closer_refl: "closer d q q"
  by (simp add: closer_def)

lemma open_length:
  assumes free: "obstacleFree a"
    and nd: "\<not> allowDiagonalsInPaths a"
    and s_in: "areCoordinatesValid a s"
    and d_in: "areCoordinatesValid a d"
    and ne: "s \<noteq> d"
    and h: "\<forall>xy. 0 \<le> h xy"
    and mono: "\<And>u v. closer d u v \<Longrightarrow> h u \<le> h v"
  shows "\<exists>r. findDijkstraPath a s d h = Some r \<and> int (length r) = manhattan s d - 1"
proof -
  have box: "isValidAgentPosition a c" if "between s d c" for c
    using between_valid [OF s_in d_in that] by (simp add: open_valid [OF free])
  from straight_route [OF nd, of s d] obtain r1 where
    "steps a r1" "r1 \<noteq> []" "hd r1 = s" "last r1 = d" "\<forall>c\<in>set r1. between s d c"
    by blast
  then have route: "isRoute a r1 s d"
    using box by (simp add: isRoute_def)
  from dijkstra_optimal [OF h route ne] obtain r where
    r: "findDijkstraPath a s d h = Some r" "steps a (d # r @ [s])"
       "\<forall>other. isRoute a other s d \<longrightarrow> pathCost h (d # r) \<le> pathCost h (tl other)"
    by blast
  let ?rv = "s # rev r @ [d]"
  have reversed: "steps a ?rv"
    using steps_rev [OF r(2)] by simp
  have "\<exists>r'. steps a r' \<and> r' \<noteq> [] \<and> hd r' = s \<and> last r' = d \<and>
          (\<forall>c\<in>set r'. between s d c) \<and>
          pathCost h (tl r') + (real (length ?rv) - 1 - real_of_int (manhattan s d))
            \<le> pathCost h (tl ?rv)"
    by (rule monotonise [OF nd h mono reversed]) (simp_all add: closer_refl)
  then obtain r' where
    r': "steps a r'" "r' \<noteq> []" "hd r' = s" "last r' = d" "\<forall>c\<in>set r'. between s d c"
        "pathCost h (tl r') + (real (length ?rv) - 1 - real_of_int (manhattan s d))
           \<le> pathCost h (tl ?rv)"
    by blast
  have "isRoute a r' s d"
    using r'(1-5) box by (simp add: isRoute_def)
  with r(3) have best: "pathCost h (d # r) \<le> pathCost h (tl r')" by blast
  have "pathCost h (tl ?rv) = pathCost h (d # r)"
    by (simp add: pathCost_append pathCost_rev)
  with r'(6) best have "real (length ?rv) - 1 - real_of_int (manhattan s d) \<le> 0"
    by linarith
  then have upper: "int (length r) + 1 \<le> manhattan s d"
    by simp
  from steps_manhattan [OF nd r(2)] have "manhattan d s \<le> int (length r) + 1"
    by simp
  with upper have "int (length r) = manhattan s d - 1"
    by (simp add: manhattan_sym)
  with r(1) show ?thesis by blast
qed

lemma magnitude_nonneg: "0 \<le> magnitude c"
  by (simp add: magnitude_def)

lemma magnitude_mono:
  assumes "closer d u v"
  shows "magnitude (difference u d) \<le> magnitude (difference v d)"
proof -
  define p q where "p = \<bar>fst u - fst d\<bar>" and "q = \<bar>snd u - snd d\<bar>"
  define p' q' where "p' = \<bar>fst v - fst d\<bar>" and "q' = \<bar>snd v - snd d\<bar>"
  have le: "p \<le> p'" "q \<le> q'" and pos: "0 \<le> p" "0 \<le> q"
    using assms by (simp_all add: closer_def p_def q_def p'_def q'_def)
  have "p * p \<le> p' * p'" using le(1) pos(1) by (intro mult_mono) simp_all
  moreover have "q * q \<le> q' * q'" using le(2) pos(2) by (intro mult_mono) simp_all
  ultimately have "p * p + q * q \<le> p' * p' + q' * q'" by simp
  then have "sqrt (real_of_int (p * p + q * q)) \<le> sqrt (real_of_int (p' * p' + q' * q'))"
    by (simp only: real_sqrt_le_iff of_int_le_iff)
  then show ?thesis
    by (simp add: magnitude_def difference_def p_def q_def p'_def q'_def)
qed

text \<open>
  C3. On an area without walls and with diagonals disallowed, for a source and
  a destination that are two different cells inside the grid, \<open>findDijkstraPath\<close> with the
  heuristic constantly 0 and \<open>findAStarPath\<close> both return a path whose number of cells is
  the Manhattan distance between source and destination minus 1. The instance below is
  the 5 by 5 grid from (0,0) to (4,4): 7 cells.
\<close>

theorem open_grid_path_length:
  assumes "obstacleFree a" "\<not> allowDiagonalsInPaths a"
    and "areCoordinatesValid a s" "areCoordinatesValid a d" "s \<noteq> d"
  shows "(\<exists>r. findDijkstraPath a s d (constantly 0) = Some r \<and>
              int (length r) = manhattan s d - 1) \<and>
         (\<exists>r. findAStarPath a s d = Some r \<and> int (length r) = manhattan s d - 1)"
proof
  show "\<exists>r. findDijkstraPath a s d (constantly 0) = Some r \<and>
          int (length r) = manhattan s d - 1"
    by (rule open_length [OF assms]) (simp_all add: constantly_def)
  show "\<exists>r. findAStarPath a s d = Some r \<and> int (length r) = manhattan s d - 1"
    unfolding findAStarPath_def
    by (rule open_length [OF assms]) (simp_all add: magnitude_nonneg magnitude_mono)
qed

theorem open_grid_path_length_witness:
  "obstacleFree (newArea 5 5 False) \<and> \<not> allowDiagonalsInPaths (newArea 5 5 False) \<and>
   areCoordinatesValid (newArea 5 5 False) (0, 0) \<and>
   areCoordinatesValid (newArea 5 5 False) (4, 4) \<and> (0, 0) \<noteq> ((4, 4) :: coordinates) \<and>
   (\<exists>r. findDijkstraPath (newArea 5 5 False) (0, 0) (4, 4) (constantly 0) = Some r \<and>
        length r = 7) \<and>
   (\<exists>r. findAStarPath (newArea 5 5 False) (0, 0) (4, 4) = Some r \<and> length r = 7)"
proof -
  have f: "obstacleFree (newArea 5 5 False)"
    by (simp add: obstacleFree_def newArea_def get_def)
  have g: "\<not> allowDiagonalsInPaths (newArea 5 5 False)"
    by (simp add: newArea_def)
  have s: "areCoordinatesValid (newArea 5 5 False) (0, 0)"
    and d: "areCoordinatesValid (newArea 5 5 False) (4, 4)"
    by (simp_all add: areCoordinatesValid_def newArea_def)
  have ne: "(0, 0) \<noteq> ((4, 4) :: coordinates)" by simp
  have m: "manhattan (0, 0) (4, 4) - 1 = 7" by (simp add: manhattan_def)
  from open_grid_path_length [OF f g s d ne] f g s d show ?thesis
    unfolding m by auto
qed

end
